theory Spec2Isabelle
  imports Complex_Main "HOL-Library.Multiset" "HOL-Library.Option_ord"
begin

section \<open>Data model of the per-diem engine (german\_travel\_rules.py)\<close>

text \<open>
  Modelling conventions.
  \<^item> A Python \<open>Decimal\<close> is a rational number; every sum and product the engine forms is
    exact at the magnitudes involved, so only \<open>quantize\<close> rounds.
  \<^item> A \<open>date\<close> is its proleptic Gregorian ordinal (\<open>date.toordinal()\<close>); the last date
    Python has is 9999-12-31, ordinal \<open>MAX_ORDINAL\<close>, and adding a day to it raises
    \<open>OverflowError\<close>.
  \<^item> A \<open>datetime\<close> holds its wall-clock time, in microseconds since the midnight that begins
    day 0, and its UTC offset in microseconds. Python orders and subtracts two aware
    datetimes by their instants (wall clock minus offset) and takes \<open>date()\<close> from the wall
    clock. A naive datetime is held with offset 0: a batch of naive datetimes behaves as a
    batch of aware ones with one common offset. A batch that mixes naive and aware
    datetimes cannot be ordered by Python at all and is not a value of this model; the
    offset of an aware datetime is fixed (\<open>datetime.timezone\<close>).
  \<^item> \<open>str.upper\<close> is a function of the Python library over all of Unicode. It is a
    parameter, \<open>up\<close>, of every function that calls it, and every property below holds for
    each such function; \<open>ascii_upper\<close>, which agrees with \<open>str.upper\<close> on ASCII strings,
    is used to run the engine on examples.
  \<^item> The type annotation of \<open>TripSegment.start\<close> and \<open>end\<close> is \<open>datetime\<close>, but the
    validator tests them against \<open>None\<close>, so both fields are optional here. Where the source
    would compare, sort or subtract a \<open>None\<close> timestamp the interpreter raises; that is the
    error value \<open>PythonError\<close>. Neither it nor \<open>OverflowError\<close> is a
    \<open>TravelRuleValidationError\<close>.
  \<^item> Every trace line is an f-string; a line is modelled by a constructor of \<open>step\<close> that
    holds exactly the values the f-string interpolates.
  \<^item> \<open>str(_money(v))\<close> in the result payload is modelled by the rational \<open>money v\<close>.
\<close>

type_synonym date = int

text \<open>\<open>date.max.toordinal()\<close>, the ordinal of 9999-12-31.\<close>

definition MAX_ORDINAL :: date where
  "MAX_ORDINAL = 3652059"

record datetime =
  local_usec :: int
  utcoffset :: int

definition usec_per_day :: int where
  "usec_per_day = 86400000000"

text \<open>\<open>datetime.date()\<close>: the calendar date of the wall clock.\<close>

definition date_of :: "datetime \<Rightarrow> date" where
  "date_of t = local_usec t div usec_per_day"

text \<open>The point in time a datetime denotes; \<open><\<close>, \<open><=\<close> and \<open>-\<close> on datetimes are those of
  the instants.\<close>

definition instant :: "datetime \<Rightarrow> int" where
  "instant t = local_usec t - utcoffset t"

text \<open>The naive datetime on day \<open>d\<close> at \<open>h:m\<close> o'clock, and the aware one whose UTC offset
  is \<open>off\<close> hours.\<close>

definition at_time :: "date \<Rightarrow> int \<Rightarrow> int \<Rightarrow> datetime" where
  "at_time d h m =
     \<lparr>local_usec = d * usec_per_day + (h * 3600 + m * 60) * 1000000, utcoffset = 0\<rparr>"

definition at_time_tz :: "date \<Rightarrow> int \<Rightarrow> int \<Rightarrow> int \<Rightarrow> datetime" where
  "at_time_tz d h m off =
     \<lparr>local_usec = d * usec_per_day + (h * 3600 + m * 60) * 1000000,
      utcoffset = off * 3600 * 1000000\<rparr>"

definition RULE_VERSION :: string where
  "RULE_VERSION = ''DE_TRAVEL_RULES_2026_01''"

record RateSet =
  full_day :: rat
  partial_day :: rat

definition DOMESTIC_FULL_DAY_RATE :: rat where
  "DOMESTIC_FULL_DAY_RATE = 28"

definition DOMESTIC_PARTIAL_DAY_RATE :: rat where
  "DOMESTIC_PARTIAL_DAY_RATE = 14"

datatype meal_key = Breakfast | Lunch | Dinner

text \<open>A Python dict iterates in insertion order: breakfast, lunch, dinner.\<close>

definition MEAL_DEDUCTION_RATES :: "(meal_key \<times> rat) list" where
  "MEAL_DEDUCTION_RATES = [(Breakfast, 20 / 100), (Lunch, 40 / 100), (Dinner, 40 / 100)]"

definition INTERNATIONAL_RATE_TABLE :: "(string \<times> RateSet) list" where
  "INTERNATIONAL_RATE_TABLE =
     [(''AT'', \<lparr>full_day = 40, partial_day = 27\<rparr>),
      (''CH'', \<lparr>full_day = 64, partial_day = 43\<rparr>),
      (''FR'', \<lparr>full_day = 53, partial_day = 35\<rparr>),
      (''NL'', \<lparr>full_day = 47, partial_day = 32\<rparr>)]"

record Receipt =
  receipt_id :: string
  amount :: rat

record DayMealProvision =
  day :: date
  breakfast :: bool
  lunch :: bool
  dinner :: bool

record TripSegment =
  trip_id :: string
  seg_start :: "datetime option"
  seg_end :: "datetime option"
  country_code :: string
  city :: "string option"
  provided_meals :: "DayMealProvision list"
  receipts :: "Receipt list"

text \<open>
  \<open>TravelRuleValidationError\<close> is the one precondition-violation kind; each of the first
  six constructors stands for one of its messages and carries the identifiers the message
  names. The last two are exceptions of the interpreter.
\<close>

datatype error =
    EmptyBatch
  | MissingStartEnd string
  | ImpossibleSpan string
  | Overlap string string
  | DuplicateReceipt string string string
  | UnsupportedCountry string
  | PythonError
  | OverflowError

fun is_validation_error :: "error \<Rightarrow> bool" where
  "is_validation_error PythonError = False"
| "is_validation_error OverflowError = False"
| "is_validation_error _ = True"

datatype step =
    RuleVersionStep string
  | TripRatesStep string bool rat rat
  | SingleDayPartialStep date rat rat
  | SingleDayNoneStep date rat
  | ArrivalDepartureStep date rat
  | FullDayStep date rat
  | MealProvidedStep date meal_key rat rat
  | MealSubtotalStep date rat
  | NoMealDeductionsStep string
  | TripSubtotalStep string rat rat rat
  | OverallTotalStep rat rat rat

record PerTripResult =
  pt_trip_id :: string
  pt_country_code :: string
  pt_gross_allowance :: rat
  pt_meal_deductions :: rat
  pt_net_allowance :: rat
  pt_calculation_steps :: "step list"

record Totals =
  gross_allowance :: rat
  meal_deductions :: rat
  net_allowance :: rat

record AggregateResult =
  rule_version :: string
  totals :: Totals
  calculation_steps :: "step list"
  by_trip :: "PerTripResult list"

section \<open>Money and country codes\<close>

text \<open>\<open>value.quantize(Decimal("0.01"), rounding=ROUND_HALF_UP)\<close>: ties go away from zero.\<close>

definition money :: "rat \<Rightarrow> rat" where
  "money v = (if 0 \<le> v then of_int \<lfloor>v * 100 + 1 / 2\<rfloor> / 100
              else - (of_int \<lfloor>- v * 100 + 1 / 2\<rfloor> / 100))"

text \<open>\<open>str.upper\<close> as it acts on a string of ASCII characters.\<close>

definition ascii_upper_char :: "char \<Rightarrow> char" where
  "ascii_upper_char c = (let n = (of_char c :: nat)
                         in if 97 \<le> n \<and> n \<le> 122 then char_of (n - 32) else c)"

definition ascii_upper :: "string \<Rightarrow> string" where
  "ascii_upper s = map ascii_upper_char s"

definition get_rates_for_country :: "(string \<Rightarrow> string) \<Rightarrow> string \<Rightarrow> error + RateSet" where
  "get_rates_for_country up code =
     (let normalized = up code
      in if normalized = ''DE''
         then Inr \<lparr>full_day = DOMESTIC_FULL_DAY_RATE, partial_day = DOMESTIC_PARTIAL_DAY_RATE\<rparr>
         else (case map_of INTERNATIONAL_RATE_TABLE normalized of
                 None \<Rightarrow> Inl (UnsupportedCountry normalized)
               | Some rates \<Rightarrow> Inr rates))"

section \<open>Validator\<close>

text \<open>The loop of \<open>_validate_segments\<close> over the timing of each segment.\<close>

fun timing_loop :: "TripSegment list \<Rightarrow> error + unit" where
  "timing_loop [] = Inr ()"
| "timing_loop (segment # rest) =
     (case (seg_start segment, seg_end segment) of
        (Some s, Some e) \<Rightarrow>
          (if instant e \<le> instant s then Inl (ImpossibleSpan (trip_id segment))
           else timing_loop rest)
      | _ \<Rightarrow> Inl (MissingStartEnd (trip_id segment)))"

text \<open>
  \<open>sorted(segments, key=lambda s: s.start)\<close>: a stable sort that orders the keys by \<open><\<close>,
  which on datetimes is the order of the instants. With two or more elements every key is
  compared at least once, and comparing \<open>None\<close> raises.
\<close>

definition start_key :: "TripSegment \<Rightarrow> int option" where
  "start_key segment = map_option instant (seg_start segment)"

definition sorted_by_start :: "TripSegment list \<Rightarrow> error + TripSegment list" where
  "sorted_by_start segments =
     (if 2 \<le> length segments \<and> list_ex (\<lambda>s. seg_start s = None) segments
      then Inl PythonError
      else Inr (sort_key start_key segments))"

fun overlaps_loop :: "(TripSegment \<times> TripSegment) list \<Rightarrow> error + unit" where
  "overlaps_loop [] = Inr ()"
| "overlaps_loop ((prev, current) # rest) =
     (case (seg_start current, seg_end prev) of
        (Some c, Some p) \<Rightarrow>
          (if instant c < instant p then Inl (Overlap (trip_id prev) (trip_id current))
           else overlaps_loop rest)
      | _ \<Rightarrow> Inl PythonError)"

definition validate_overlaps :: "TripSegment list \<Rightarrow> error + unit" where
  "validate_overlaps segments =
     (case sorted_by_start segments of
        Inl e \<Rightarrow> Inl e
      | Inr ordered \<Rightarrow> overlaps_loop (zip ordered (tl ordered)))"

text \<open>The inner and the outer loop of \<open>_validate_duplicate_receipts\<close>, threading \<open>seen\<close>.\<close>

fun receipts_loop ::
  "string \<Rightarrow> Receipt list \<Rightarrow> (string \<rightharpoonup> string) \<Rightarrow> error + (string \<rightharpoonup> string)" where
  "receipts_loop tid [] seen = Inr seen"
| "receipts_loop tid (receipt # rest) seen =
     (case seen (receipt_id receipt) of
        Some owner \<Rightarrow> Inl (DuplicateReceipt (receipt_id receipt) owner tid)
      | None \<Rightarrow> receipts_loop tid rest (seen(receipt_id receipt \<mapsto> tid)))"

fun duplicates_loop :: "TripSegment list \<Rightarrow> (string \<rightharpoonup> string) \<Rightarrow> error + unit" where
  "duplicates_loop [] seen = Inr ()"
| "duplicates_loop (segment # rest) seen =
     (case receipts_loop (trip_id segment) (receipts segment) seen of
        Inl e \<Rightarrow> Inl e
      | Inr seen' \<Rightarrow> duplicates_loop rest seen')"

definition validate_duplicate_receipts :: "TripSegment list \<Rightarrow> error + unit" where
  "validate_duplicate_receipts segments = duplicates_loop segments Map.empty"

definition validate_segments :: "TripSegment list \<Rightarrow> error + unit" where
  "validate_segments segments =
     (if segments = [] then Inl EmptyBatch
      else (case timing_loop segments of
              Inl e \<Rightarrow> Inl e
            | Inr _ \<Rightarrow>
                (case validate_overlaps segments of
                   Inl e \<Rightarrow> Inl e
                 | Inr _ \<Rightarrow> validate_duplicate_receipts segments)))"

section \<open>Day allocator\<close>

text \<open>
  \<open>Decimal(duration.total_seconds()) / Decimal("3600")\<close>. The float \<open>total_seconds()\<close> is
  the duration in microseconds divided by \<open>10^6\<close> and rounded to the nearest double; rounding
  is monotone, 28800.0 is a double and neighbouring doubles there are far closer than one
  microsecond, so the comparison with 8 decides as the exact quotient does. The exact
  quotient is what the model holds.
\<close>

definition worked_hours_of :: "int \<Rightarrow> rat" where
  "worked_hours_of duration = of_int duration / 1000000 / 3600"

text \<open>\<open>d + timedelta(days=1)\<close>.\<close>

definition next_day :: "date \<Rightarrow> error + date" where
  "next_day d = (if MAX_ORDINAL < d + 1 then Inl OverflowError else Inr (d + 1))"

function day_loop ::
  "date \<Rightarrow> date \<Rightarrow> date \<Rightarrow> RateSet \<Rightarrow> rat \<Rightarrow> step list \<Rightarrow> error + rat \<times> step list" where
  "day_loop current start_day end_day rates tot steps =
     (if current \<le> end_day then
        (if current = start_day \<or> current = end_day
         then (case next_day current of
                 Inl e \<Rightarrow> Inl e
               | Inr following \<Rightarrow>
                   day_loop following start_day end_day rates (tot + partial_day rates)
                     (steps @ [ArrivalDepartureStep current (partial_day rates)]))
         else (case next_day current of
                 Inl e \<Rightarrow> Inl e
               | Inr following \<Rightarrow>
                   day_loop following start_day end_day rates (tot + full_day rates)
                     (steps @ [FullDayStep current (full_day rates)])))
      else Inr (tot, steps))"
  by pat_completeness auto
termination
  by (relation "measure (\<lambda>(current, start_day, end_day, rates, tot, steps).
                  nat (end_day + 1 - current))")
     (auto simp: next_day_def split: if_splits)

declare day_loop.simps [simp del]

text \<open>
  \<open>_calculate_day_allowance\<close> up to its two \<open>return _money(...), steps\<close>: the amount before
  it is quantized, and the trace.
\<close>

definition day_allowance_unquantized ::
  "TripSegment \<Rightarrow> RateSet \<Rightarrow> error + rat \<times> step list" where
  "day_allowance_unquantized segment rates =
     (case (seg_start segment, seg_end segment) of
        (Some s, Some e) \<Rightarrow>
          (let start_day = date_of s; end_day = date_of e
           in if start_day = end_day then
                (let duration = instant e - instant s;
                     minimum_hours = 8;
                     worked_hours = worked_hours_of duration
                 in if worked_hours \<ge> minimum_hours
                    then Inr (partial_day rates,
                              [SingleDayPartialStep start_day worked_hours (partial_day rates)])
                    else Inr (0, [SingleDayNoneStep start_day worked_hours]))
              else day_loop start_day start_day end_day rates 0 [])
      | _ \<Rightarrow> Inl PythonError)"

definition calculate_day_allowance :: "TripSegment \<Rightarrow> RateSet \<Rightarrow> error + rat \<times> step list" where
  "calculate_day_allowance segment rates =
     (case day_allowance_unquantized segment rates of
        Inl e \<Rightarrow> Inl e
      | Inr (amt, steps) \<Rightarrow> Inr (money amt, steps))"

section \<open>Meal deduction calculator\<close>

text \<open>\<open>{entry.day: entry for entry in segment.provided_meals}\<close>: a later entry replaces an
  earlier one of the same day.\<close>

fun provided_by_day :: "DayMealProvision list \<Rightarrow> (date \<rightharpoonup> DayMealProvision)" where
  "provided_by_day [] = Map.empty"
| "provided_by_day (entry # rest) =
     (\<lambda>d. case provided_by_day rest d of
             Some later \<Rightarrow> Some later
           | None \<Rightarrow> (if day entry = d then Some entry else None))"

text \<open>\<open>getattr(meals, meal_key)\<close>.\<close>

fun provided :: "DayMealProvision \<Rightarrow> meal_key \<Rightarrow> bool" where
  "provided meals Breakfast = breakfast meals"
| "provided meals Lunch = lunch meals"
| "provided meals Dinner = dinner meals"

text \<open>The loop over \<open>MEAL_DEDUCTION_RATES.items()\<close> for one day that has a record.\<close>

fun meals_loop ::
  "(meal_key \<times> rat) list \<Rightarrow> DayMealProvision \<Rightarrow> date \<Rightarrow> rat \<Rightarrow> rat \<Rightarrow> step list \<Rightarrow> rat \<times> step list" where
  "meals_loop [] meals current_day full_day_rate day_total steps = (day_total, steps)"
| "meals_loop ((key, ratio) # rest) meals current_day full_day_rate day_total steps =
     (if provided meals key then
        (let deduction = money (full_day_rate * ratio)
         in meals_loop rest meals current_day full_day_rate (day_total + deduction)
              (steps @ [MealProvidedStep current_day key ratio deduction]))
      else meals_loop rest meals current_day full_day_rate day_total steps)"

function deduction_loop ::
  "date \<Rightarrow> date \<Rightarrow> (date \<rightharpoonup> DayMealProvision) \<Rightarrow> rat \<Rightarrow> rat \<Rightarrow> step list \<Rightarrow>
     error + rat \<times> step list" where
  "deduction_loop current_day end_day by_day full_day_rate tot steps =
     (if current_day \<le> end_day then
        (case by_day current_day of
           None \<Rightarrow>
             (case next_day current_day of
                Inl e \<Rightarrow> Inl e
              | Inr following \<Rightarrow>
                  deduction_loop following end_day by_day full_day_rate tot steps)
         | Some meals \<Rightarrow>
             (case meals_loop MEAL_DEDUCTION_RATES meals current_day full_day_rate 0 steps of
                (day_total, steps') \<Rightarrow>
                  (if day_total \<noteq> 0
                   then (case next_day current_day of
                           Inl e \<Rightarrow> Inl e
                         | Inr following \<Rightarrow>
                             deduction_loop following end_day by_day full_day_rate
                               (tot + day_total)
                               (steps' @ [MealSubtotalStep current_day day_total]))
                   else (case next_day current_day of
                           Inl e \<Rightarrow> Inl e
                         | Inr following \<Rightarrow>
                             deduction_loop following end_day by_day full_day_rate
                               tot steps'))))
      else Inr (tot, steps))"
  by pat_completeness auto
termination
  by (relation "measure (\<lambda>(current_day, end_day, by_day, full_day_rate, tot, steps).
                  nat (end_day + 1 - current_day))")
     (auto simp: next_day_def split: if_splits)

declare deduction_loop.simps [simp del]

text \<open>
  \<open>_calculate_meal_deductions\<close> up to the end of its \<open>while\<close> loop: the total before it is
  quantized, and the trace so far.
\<close>

definition meal_deductions_unquantized ::
  "TripSegment \<Rightarrow> rat \<Rightarrow> error + rat \<times> step list" where
  "meal_deductions_unquantized segment full_day_rate =
     (case (seg_start segment, seg_end segment) of
        (Some s, Some e) \<Rightarrow>
          deduction_loop (date_of s) (date_of e)
            (provided_by_day (provided_meals segment)) full_day_rate 0 []
      | _ \<Rightarrow> Inl PythonError)"

definition calculate_meal_deductions :: "TripSegment \<Rightarrow> rat \<Rightarrow> error + rat \<times> step list" where
  "calculate_meal_deductions segment full_day_rate =
     (case meal_deductions_unquantized segment full_day_rate of
        Inl e \<Rightarrow> Inl e
      | Inr (tot, steps) \<Rightarrow>
          Inr (money tot,
               if tot = 0 then steps @ [NoMealDeductionsStep (trip_id segment)]
               else steps))"

section \<open>Aggregator\<close>

record calc_state =
  cs_steps :: "step list"
  cs_by_trip :: "PerTripResult list"
  cs_gross_total :: rat
  cs_meal_deduction_total :: rat

text \<open>The body of the \<open>for\<close> loop of \<open>calculate\<close> for one segment.\<close>

definition calculate_segment ::
  "(string \<Rightarrow> string) \<Rightarrow> TripSegment \<Rightarrow> calc_state \<Rightarrow> error + calc_state" where
  "calculate_segment up segment st =
     (case get_rates_for_country up (country_code segment) of
        Inl e \<Rightarrow> Inl e
      | Inr rates \<Rightarrow>
          (let is_domestic = (up (country_code segment) = ''DE'');
               rate_steps = [TripRatesStep (trip_id segment) is_domestic
                               (full_day rates) (partial_day rates)]
           in case calculate_day_allowance segment rates of
                Inl e \<Rightarrow> Inl e
              | Inr (day_allowance, day_steps) \<Rightarrow>
                  (case calculate_meal_deductions segment (full_day rates) of
                     Inl e \<Rightarrow> Inl e
                   | Inr (meal_deduction, meal_steps) \<Rightarrow>
                       (let reimbursable = money (day_allowance - meal_deduction);
                            segment_steps = rate_steps @ day_steps @ meal_steps @
                              [TripSubtotalStep (trip_id segment) day_allowance
                                 meal_deduction reimbursable]
                        in Inr \<lparr>cs_steps = cs_steps st @ segment_steps,
                                cs_by_trip = cs_by_trip st @
                                  [\<lparr>pt_trip_id = trip_id segment,
                                    pt_country_code = up (country_code segment),
                                    pt_gross_allowance = money day_allowance,
                                    pt_meal_deductions = money meal_deduction,
                                    pt_net_allowance = reimbursable,
                                    pt_calculation_steps = segment_steps\<rparr>],
                                cs_gross_total = cs_gross_total st + day_allowance,
                                cs_meal_deduction_total =
                                  cs_meal_deduction_total st + meal_deduction\<rparr>))))"

fun calculate_loop ::
  "(string \<Rightarrow> string) \<Rightarrow> TripSegment list \<Rightarrow> calc_state \<Rightarrow> error + calc_state" where
  "calculate_loop up [] st = Inr st"
| "calculate_loop up (segment # rest) st =
     (case calculate_segment up segment st of
        Inl e \<Rightarrow> Inl e
      | Inr st' \<Rightarrow> calculate_loop up rest st')"

definition calculate :: "(string \<Rightarrow> string) \<Rightarrow> TripSegment list \<Rightarrow> error + AggregateResult" where
  "calculate up segments =
     (case validate_segments segments of
        Inl e \<Rightarrow> Inl e
      | Inr _ \<Rightarrow>
          (case sorted_by_start segments of
             Inl e \<Rightarrow> Inl e
           | Inr ordered \<Rightarrow>
               (case calculate_loop up ordered
                       \<lparr>cs_steps = [RuleVersionStep RULE_VERSION], cs_by_trip = [],
                        cs_gross_total = 0, cs_meal_deduction_total = 0\<rparr> of
                  Inl e \<Rightarrow> Inl e
                | Inr st \<Rightarrow>
                    (let net_total = money (cs_gross_total st - cs_meal_deduction_total st);
                         totals_d = \<lparr>gross_allowance = money (cs_gross_total st),
                                meal_deductions = money (cs_meal_deduction_total st),
                                net_allowance = net_total\<rparr>
                     in Inr \<lparr>rule_version = RULE_VERSION,
                             totals = totals_d,
                             calculation_steps = cs_steps st @
                               [OverallTotalStep (gross_allowance totals_d) (meal_deductions totals_d)
                                  (net_allowance totals_d)],
                             by_trip = cs_by_trip st\<rparr>))))"

section \<open>Notions used to state the properties\<close>

text \<open>A monetary value with at most two decimal places.\<close>

definition cents :: "rat \<Rightarrow> bool" where
  "cents x \<longleftrightarrow> x * 100 \<in> \<int>"

text \<open>The segment invariant of the data model: both timestamps present and \<open>end > start\<close>.\<close>

definition well_timed :: "TripSegment \<Rightarrow> bool" where
  "well_timed seg =
     (case (seg_start seg, seg_end seg) of
        (Some s, Some e) \<Rightarrow> instant s < instant e
      | _ \<Rightarrow> False)"

text \<open>Two segments share time: each starts before the other ends.\<close>

definition overlaps :: "TripSegment \<Rightarrow> TripSegment \<Rightarrow> bool" where
  "overlaps a b =
     (case (seg_start a, seg_end a) of
        (Some sa, Some ea) \<Rightarrow>
          (case (seg_start b, seg_end b) of
             (Some sb, Some eb) \<Rightarrow> instant sa < instant eb \<and> instant sb < instant ea
           | _ \<Rightarrow> False)
      | _ \<Rightarrow> False)"

definition some_pair_overlaps :: "TripSegment list \<Rightarrow> bool" where
  "some_pair_overlaps segments =
     list_ex (\<lambda>j. list_ex (\<lambda>i. overlaps (segments ! i) (segments ! j)) [0..<j])
       [0..<length segments]"

text \<open>All receipt ids of a batch, in the order the validator scans them.\<close>

definition batch_receipt_ids :: "TripSegment list \<Rightarrow> string list" where
  "batch_receipt_ids segments = concat (map (\<lambda>seg. map receipt_id (receipts seg)) segments)"

definition supported_country :: "(string \<Rightarrow> string) \<Rightarrow> string \<Rightarrow> bool" where
  "supported_country up code =
     (up code = ''DE'' \<or> up code \<in> set (map fst INTERNATIONAL_RATE_TABLE))"

text \<open>The violations of the batch preconditions, as the specification lists them: an empty
  batch, a segment with a missing timestamp or with \<open>end <= start\<close>, two segments that
  overlap, two receipts with one id, a country code without rates.\<close>

definition precondition_violated :: "(string \<Rightarrow> string) \<Rightarrow> TripSegment list \<Rightarrow> bool" where
  "precondition_violated up segments =
     (segments = [] \<or> list_ex (\<lambda>seg. \<not> well_timed seg) segments \<or>
      some_pair_overlaps segments \<or> \<not> distinct (batch_receipt_ids segments) \<or>
      list_ex (\<lambda>seg. \<not> supported_country up (country_code seg)) segments)"

text \<open>
  The day loops add a day after every date they visit, the last one included. A segment
  makes them step past the last date Python has when its dates are in order and its end date
  is that last date, 9999-12-31.
\<close>

definition steps_past_last_date :: "TripSegment \<Rightarrow> bool" where
  "steps_past_last_date seg =
     (case (seg_start seg, seg_end seg) of
        (Some s, Some e) \<Rightarrow> date_of s \<le> date_of e \<and> MAX_ORDINAL \<le> date_of e
      | _ \<Rightarrow> False)"

text \<open>The record that matches a date: the last one of the segment's sequence with that day
  (a sequence with one record per date has no other); none when no record has that day.\<close>

definition matching_record :: "DayMealProvision list \<Rightarrow> date \<Rightarrow> DayMealProvision option" where
  "matching_record meals d =
     (case filter (\<lambda>m. day m = d) meals of
        [] \<Rightarrow> None
      | m # ms \<Rightarrow> Some (last (m # ms)))"

text \<open>The gross allowance and the meal deduction of one segment before any quantization;
  zero stands in where the engine produces none.\<close>

definition gross_unquantized :: "(string \<Rightarrow> string) \<Rightarrow> TripSegment \<Rightarrow> rat" where
  "gross_unquantized up seg =
     (case get_rates_for_country up (country_code seg) of
        Inl e \<Rightarrow> 0
      | Inr rates \<Rightarrow>
          (case day_allowance_unquantized seg rates of
             Inl e \<Rightarrow> 0
           | Inr (amt, steps) \<Rightarrow> amt))"

definition deduction_unquantized :: "(string \<Rightarrow> string) \<Rightarrow> TripSegment \<Rightarrow> rat" where
  "deduction_unquantized up seg =
     (case get_rates_for_country up (country_code seg) of
        Inl e \<Rightarrow> 0
      | Inr rates \<Rightarrow>
          (case meal_deductions_unquantized seg (full_day rates) of
             Inl e \<Rightarrow> 0
           | Inr (tot, steps) \<Rightarrow> tot))"

text \<open>
  The meal deduction in the words of the specification: for a day with a record, each meal
  marked true deducts the quantized share of the full-day rate (breakfast 20 percent, lunch
  and dinner 40 percent each); a day without a record deducts nothing.
\<close>

definition day_deduction_spec :: "rat \<Rightarrow> DayMealProvision \<Rightarrow> rat" where
  "day_deduction_spec full_day_rate meals =
     (if breakfast meals then money (full_day_rate * (20 / 100)) else 0) +
     (if lunch meals then money (full_day_rate * (40 / 100)) else 0) +
     (if dinner meals then money (full_day_rate * (40 / 100)) else 0)"

definition meal_deduction_spec ::
  "(date \<rightharpoonup> DayMealProvision) \<Rightarrow> rat \<Rightarrow> date \<Rightarrow> date \<Rightarrow> rat" where
  "meal_deduction_spec by_day full_day_rate first_day last_day =
     sum_list (map (\<lambda>d. case by_day d of
                           None \<Rightarrow> 0
                         | Some meals \<Rightarrow> day_deduction_spec full_day_rate meals)
                 [first_day..last_day])"

text \<open>The price of date \<open>d\<close> of a multi-day segment in the words of the specification.\<close>

definition day_price_spec :: "RateSet \<Rightarrow> date \<Rightarrow> date \<Rightarrow> date \<Rightarrow> rat" where
  "day_price_spec rates first_day last_day d =
     (if d = first_day \<or> d = last_day then partial_day rates else full_day rates)"

definition eight_hours :: int where
  "eight_hours = 8 * 3600 * 1000000"

section \<open>Example segments\<close>

text \<open>The domestic three-day segment of the specification: 2026-02-01 08:00 to
  2026-02-03 18:00, breakfast and lunch provided on the middle day. Day 739648 is
  2026-02-01 as a proleptic Gregorian ordinal.\<close>

definition trip_2026_02 :: TripSegment where
  "trip_2026_02 =
     \<lparr>trip_id = ''T1'', seg_start = Some (at_time 739648 8 0),
      seg_end = Some (at_time 739650 18 0), country_code = ''DE'', city = None,
      provided_meals = [\<lparr>day = 739649, breakfast = True, lunch = True, dinner = False\<rparr>],
      receipts = []\<rparr>"


text \<open>A domestic segment on day \<open>d\<close> from \<open>h1\<close> to \<open>h2\<close> o'clock, without meals or
  receipts.\<close>

definition slot :: "string \<Rightarrow> date \<Rightarrow> int \<Rightarrow> int \<Rightarrow> TripSegment" where
  "slot tid d h1 h2 =
     \<lparr>trip_id = tid, seg_start = Some (at_time d h1 0), seg_end = Some (at_time d h2 0),
      country_code = ''DE'', city = None, provided_meals = [], receipts = []\<rparr>"



text \<open>A well-timed segment in a country without rates, and one that carries the same receipt
  id twice.\<close>

text \<open>A domestic day trip on the last date Python has, 9999-12-31, from 08:00 to 18:00, and a
  two-day segment that ends on it.\<close>

definition last_day_trip :: TripSegment where
  "last_day_trip = slot ''L'' 3652059 8 18"

definition last_days_trip :: TripSegment where
  "last_days_trip =
     \<lparr>trip_id = ''L2'', seg_start = Some (at_time 3652058 8 0),
      seg_end = Some (at_time 3652059 18 0), country_code = ''DE'', city = None,
      provided_meals = [], receipts = []\<rparr>"

text \<open>
  A segment of aware datetimes: it starts on 2026-02-02 at 01:00 at UTC offset +10 hours
  and ends on 2026-02-01 at 20:00 at offset -5 hours, ten hours later.
\<close>

definition reversed_dates_trip :: TripSegment where
  "reversed_dates_trip =
     \<lparr>trip_id = ''R'', seg_start = Some (at_time_tz 739649 1 0 10),
      seg_end = Some (at_time_tz 739648 20 0 (- 5)), country_code = ''DE'', city = None,
      provided_meals = [], receipts = []\<rparr>"





text \<open>The three-day segment followed, three days later, by a domestic day trip of ten hours.\<close>

definition two_trip_batch :: "TripSegment list" where
  "two_trip_batch = [slot ''D'' 739652 8 18, trip_2026_02]"

section \<open>Quantization\<close>

lemma cents_0 [simp]: "cents 0"
  by (simp add: cents_def)

lemma cents_numeral [simp]: "cents (numeral n)"
  by (simp add: cents_def)

lemma cents_add: "cents x \<Longrightarrow> cents y \<Longrightarrow> cents (x + y)"
  by (simp add: cents_def distrib_right)

lemma cents_diff: "cents x \<Longrightarrow> cents y \<Longrightarrow> cents (x - y)"
  by (simp add: cents_def left_diff_distrib)

lemma cents_sum_list: "(\<And>x. x \<in> set xs \<Longrightarrow> cents x) \<Longrightarrow> cents (sum_list xs)"
  by (induction xs) (simp_all add: cents_add)

lemma cents_money [simp]: "cents (money v)"
  by (simp add: money_def cents_def)

lemma money_cents: 
  assumes "cents v" shows "money v = v"
proof -
  from assms obtain k :: int where k: "v * 100 = of_int k"
    by (auto simp: cents_def elim: Ints_cases)
  have v: "v = of_int k / 100" using k by simp
  have f1: "\<lfloor>(of_int k :: rat) + 1 / 2\<rfloor> = k" by linarith
  have f2: "\<lfloor>- (of_int k :: rat) + 1 / 2\<rfloor> = - k" by linarith
  show ?thesis
    using f1 f2 by (simp add: money_def v)
qed

lemma money_idem [simp]: "money (money v) = money v"
  by (rule money_cents) simp

lemma money_0 [simp]: "money 0 = 0"
  by (rule money_cents) simp

subsection \<open>Rate resolver\<close>

lemma upper_DE: "ascii_upper ''DE'' = ''DE''"
  by code_simp


lemma upper_zz: "ascii_upper ''zz'' = ''ZZ''"
  by code_simp

lemma map_of_table_cases:
  "map_of INTERNATIONAL_RATE_TABLE k = Some r \<Longrightarrow>
     r \<in> {\<lparr>full_day = 40, partial_day = 27\<rparr>, \<lparr>full_day = 64, partial_day = 43\<rparr>,
          \<lparr>full_day = 53, partial_day = 35\<rparr>, \<lparr>full_day = 47, partial_day = 32\<rparr>}"
  by (auto simp: INTERNATIONAL_RATE_TABLE_def split: if_splits)

lemma get_rates_cents:
  assumes "get_rates_for_country up code = Inr rates"
  shows "cents (full_day rates) \<and> cents (partial_day rates)"
proof (cases "up code = ''DE''")
  case True
  with assms show ?thesis
    by (auto simp: get_rates_for_country_def DOMESTIC_FULL_DAY_RATE_def DOMESTIC_PARTIAL_DAY_RATE_def)
next
  case False
  with assms obtain r where "map_of INTERNATIONAL_RATE_TABLE (up code) = Some r" "rates = r"
    by (auto simp: get_rates_for_country_def Let_def split: option.splits)
  with map_of_table_cases[of "up code" r] show ?thesis by auto
qed

lemma get_rates_domestic:
  "up code = ''DE'' \<Longrightarrow> get_rates_for_country up code = Inr \<lparr>full_day = 28, partial_day = 14\<rparr>"
  by (simp add: get_rates_for_country_def DOMESTIC_FULL_DAY_RATE_def DOMESTIC_PARTIAL_DAY_RATE_def)

lemma get_rates_supported:
  "(\<exists>rates. get_rates_for_country up code = Inr rates) \<longleftrightarrow> supported_country up code"
proof (cases "map_of INTERNATIONAL_RATE_TABLE (up code)")
  case None
  then have "up code \<notin> fst ` set INTERNATIONAL_RATE_TABLE"
    by (simp add: map_of_eq_None_iff)
  with None show ?thesis
    by (simp add: get_rates_for_country_def supported_country_def Let_def)
next
  case (Some r)
  then have "up code \<in> fst ` set INTERNATIONAL_RATE_TABLE"
    by (metis map_of_eq_None_iff option.distinct(1))
  with Some show ?thesis
    by (simp add: get_rates_for_country_def supported_country_def Let_def)
qed

lemma get_rates_unsupported:
  assumes "\<not> supported_country up code"
  shows "get_rates_for_country up code = Inl (UnsupportedCountry (up code))"
proof -
  from assms have "up code \<noteq> ''DE''" "up code \<notin> fst ` set INTERNATIONAL_RATE_TABLE"
    by (simp_all add: supported_country_def)
  then show ?thesis
    by (simp add: get_rates_for_country_def Let_def map_of_eq_None_iff[THEN iffD2])
qed

subsection \<open>Day allocator\<close>

lemma day_loop_total:
  "end_day < MAX_ORDINAL \<Longrightarrow>
     \<exists>steps'. day_loop current start_day end_day rates tot steps =
       Inr (tot + sum_list (map (day_price_spec rates start_day end_day) [current..end_day]),
            steps')"
proof (induction current start_day end_day rates tot steps rule: day_loop.induct)
  case (1 current start_day end_day rates tot steps)
  show ?case
  proof (cases "current \<le> end_day")
    case True
    with "1.prems" have n: "next_day current = Inr (current + 1)"
      by (simp add: next_day_def)
    from True have u: "[current..end_day] = current # [current + 1..end_day]"
      by (simp add: upto_rec1)
    show ?thesis
    proof (cases "current = start_day \<or> current = end_day")
      case edge: True
      then have p: "day_price_spec rates start_day end_day current = partial_day rates"
        by (simp add: day_price_spec_def)
      from "1.IH"(1)[OF True edge n "1.prems"] obtain steps' where
        "day_loop (current + 1) start_day end_day rates (tot + partial_day rates)
           (steps @ [ArrivalDepartureStep current (partial_day rates)]) =
         Inr (tot + partial_day rates +
                sum_list (map (day_price_spec rates start_day end_day) [current + 1..end_day]),
              steps')"
        by blast
      with True edge n show ?thesis
        by (subst day_loop.simps) (simp add: u p add.assoc)
    next
      case mid: False
      then have p: "day_price_spec rates start_day end_day current = full_day rates"
        by (simp add: day_price_spec_def)
      from "1.IH"(2)[OF True mid n "1.prems"] obtain steps' where
        "day_loop (current + 1) start_day end_day rates (tot + full_day rates)
           (steps @ [FullDayStep current (full_day rates)]) =
         Inr (tot + full_day rates +
                sum_list (map (day_price_spec rates start_day end_day) [current + 1..end_day]),
              steps')"
        by blast
      with True mid n show ?thesis
        by (subst day_loop.simps) (simp add: u p add.assoc)
    qed
  next
    case False
    then show ?thesis by (subst day_loop.simps) simp
  qed
qed

lemma day_loop_overflow:
  "current \<le> end_day \<Longrightarrow> MAX_ORDINAL \<le> end_day \<Longrightarrow>
     day_loop current start_day end_day rates tot steps = Inl OverflowError"
proof (induction current start_day end_day rates tot steps rule: day_loop.induct)
  case (1 current start_day end_day rates tot steps)
  show ?case
  proof (cases "MAX_ORDINAL < current + 1")
    case True
    then have n: "next_day current = Inl OverflowError"
      by (simp add: next_day_def)
    with "1.prems"(1) show ?thesis
      by (subst day_loop.simps) simp
  next
    case False
    then have n: "next_day current = Inr (current + 1)"
      by (simp add: next_day_def)
    from False "1.prems"(2) have le: "current + 1 \<le> end_day" by simp
    show ?thesis
    proof (cases "current = start_day \<or> current = end_day")
      case edge: True
      from "1.IH"(1)[OF "1.prems"(1) edge n le "1.prems"(2)] "1.prems"(1) edge n show ?thesis
        by (subst day_loop.simps) simp
    next
      case mid: False
      from "1.IH"(2)[OF "1.prems"(1) mid n le "1.prems"(2)] "1.prems"(1) mid n show ?thesis
        by (subst day_loop.simps) simp
    qed
  qed
qed

lemma multi_day_prices:
  assumes "first_day < last_day"
  shows "sum_list (map (day_price_spec rates first_day last_day) [first_day..last_day]) =
           partial_day rates + sum_list (map (\<lambda>d. full_day rates) [first_day + 1..last_day - 1])
             + partial_day rates"
proof -
  have s1: "[first_day..last_day] = first_day # [first_day + 1..last_day]"
    using assms by (simp add: upto_rec1)
  have s2: "[first_day + 1..last_day] = [first_day + 1..last_day - 1] @ [last_day]"
    using assms by (simp add: upto_rec2)
  have mid: "map (day_price_spec rates first_day last_day) [first_day + 1..last_day - 1] =
               map (\<lambda>d. full_day rates) [first_day + 1..last_day - 1]"
    by (rule map_cong) (auto simp: day_price_spec_def)
  have ends: "day_price_spec rates first_day last_day first_day = partial_day rates"
    "day_price_spec rates first_day last_day last_day = partial_day rates"
    by (simp_all add: day_price_spec_def)
  show ?thesis
    unfolding s1 s2 by (simp add: mid ends)
qed

lemma worked_hours_gate: "worked_hours_of d \<ge> 8 \<longleftrightarrow> eight_hours \<le> d"
  by (simp add: worked_hours_of_def eight_hours_def field_simps)

lemma day_allowance_unquantized_multi:
  assumes "seg_start seg = Some s" and "seg_end seg = Some e"
    and "date_of s \<noteq> date_of e" and "date_of e < MAX_ORDINAL"
  shows "\<exists>steps. day_allowance_unquantized seg rates =
           Inr (sum_list (map (day_price_spec rates (date_of s) (date_of e))
                            [date_of s..date_of e]), steps)"
  using assms day_loop_total[OF assms(4), of "date_of s" "date_of s" rates 0 "[]"]
  by (simp add: day_allowance_unquantized_def Let_def)

lemma day_allowance_unquantized_single:
  assumes "seg_start seg = Some s" and "seg_end seg = Some e"
    and "date_of s = date_of e"
  shows "\<exists>steps. day_allowance_unquantized seg rates =
           Inr (if eight_hours \<le> instant e - instant s then partial_day rates else 0, steps)"
  using assms by (simp add: day_allowance_unquantized_def Let_def worked_hours_gate)

lemma day_allowance_unquantized_overflow:
  assumes "seg_start seg = Some s" and "seg_end seg = Some e"
    and "date_of s < date_of e" and "MAX_ORDINAL \<le> date_of e"
  shows "day_allowance_unquantized seg rates = Inl OverflowError"
  using assms day_loop_overflow[of "date_of s" "date_of e" "date_of s" rates 0 "[]"]
  by (simp add: day_allowance_unquantized_def Let_def)

lemma calculate_day_allowance_multi:
  assumes "seg_start seg = Some s" and "seg_end seg = Some e"
    and "date_of s \<noteq> date_of e" and "date_of e < MAX_ORDINAL"
  shows "\<exists>steps. calculate_day_allowance seg rates =
           Inr (money (sum_list (map (day_price_spec rates (date_of s) (date_of e))
                                  [date_of s..date_of e])), steps)"
proof -
  from day_allowance_unquantized_multi[OF assms, of rates] obtain steps where
    "day_allowance_unquantized seg rates =
       Inr (sum_list (map (day_price_spec rates (date_of s) (date_of e))
                        [date_of s..date_of e]), steps)"
    by blast
  then show ?thesis by (simp add: calculate_day_allowance_def)
qed

lemma calculate_day_allowance_single:
  assumes "seg_start seg = Some s" and "seg_end seg = Some e"
    and "date_of s = date_of e"
  shows "\<exists>steps. calculate_day_allowance seg rates =
           Inr (if eight_hours \<le> instant e - instant s then money (partial_day rates) else 0,
                steps)"
proof -
  from day_allowance_unquantized_single[OF assms, of rates] obtain steps where
    "day_allowance_unquantized seg rates =
       Inr (if eight_hours \<le> instant e - instant s then partial_day rates else 0, steps)"
    by blast
  then show ?thesis by (auto simp: calculate_day_allowance_def)
qed

lemma calculate_day_allowance_overflow:
  assumes "seg_start seg = Some s" and "seg_end seg = Some e"
    and "date_of s < date_of e" and "MAX_ORDINAL \<le> date_of e"
  shows "calculate_day_allowance seg rates = Inl OverflowError"
  by (simp add: calculate_day_allowance_def day_allowance_unquantized_overflow[OF assms])

lemma date_of_at_time:
  "0 \<le> h \<Longrightarrow> h < 24 \<Longrightarrow> 0 \<le> m \<Longrightarrow> m < 60 \<Longrightarrow> date_of (at_time d h m) = d"
  by (simp add: date_of_def at_time_def usec_per_day_def div_pos_pos_trivial)

section \<open>Properties of the day allocator\<close>

text \<open>
  C1, as the code has it. A segment whose start date is earlier than its end date, the end
  date being earlier than 9999-12-31, has as gross allowance the partial-day rate of its
  country for the first date, plus the full-day rate for every date strictly between the
  first and the last, plus the partial-day rate for the last date. The hours of absence on
  the first and the last day play no part.
\<close>

theorem multi_day_allowance:
  assumes "seg_start seg = Some s" and "seg_end seg = Some e"
    and "date_of s < date_of e" and "date_of e < MAX_ORDINAL"
    and "get_rates_for_country up (country_code seg) = Inr rates"
  shows "\<exists>steps. calculate_day_allowance seg rates =
           Inr (partial_day rates
                  + sum_list (map (\<lambda>d. full_day rates) [date_of s + 1..date_of e - 1])
                  + partial_day rates, steps)"
proof -
  have ne: "date_of s \<noteq> date_of e" using assms(3) by simp
  have c: "cents (full_day rates)" "cents (partial_day rates)"
    using get_rates_cents[OF assms(5)] by simp_all
  have "cents (partial_day rates
                  + sum_list (map (\<lambda>d. full_day rates) [date_of s + 1..date_of e - 1])
                  + partial_day rates)"
    by (intro cents_add cents_sum_list c) (auto simp: c)
  then show ?thesis
    using calculate_day_allowance_multi[OF assms(1,2) ne assms(4), of rates]
    by (simp add: multi_day_prices[OF assms(3)] money_cents)
qed

text \<open>The domestic segment from 2026-02-01 08:00 to 2026-02-03 18:00 (day numbers 739648 and
  739650) has gross allowance 56.00.\<close>

theorem multi_day_allowance_witness:
  "\<exists>steps. calculate_day_allowance trip_2026_02 \<lparr>full_day = 28, partial_day = 14\<rparr> = Inr (56, steps)"
proof -
  have r: "get_rates_for_country ascii_upper (country_code trip_2026_02) =
             Inr \<lparr>full_day = 28, partial_day = 14\<rparr>"
    by (simp add: trip_2026_02_def get_rates_domestic upper_DE)
  have a: "seg_start trip_2026_02 = Some (at_time 739648 8 0)"
    "seg_end trip_2026_02 = Some (at_time 739650 18 0)"
    by (simp_all add: trip_2026_02_def)
  have d: "date_of (at_time 739648 8 0) < date_of (at_time 739650 18 0)"
    "date_of (at_time 739650 18 0) < MAX_ORDINAL"
    by (simp_all add: date_of_at_time MAX_ORDINAL_def)
  show ?thesis
    using multi_day_allowance[OF a d r] by (simp add: date_of_at_time)
qed

text \<open>
  The claim as stated fails on a segment of aware datetimes whose end is later than its
  start while the calendar date of its start is later than that of its end: the dates
  differ, the claim prices the two of them at the partial-day rate, 28.00 in all, and the
  day loop, which runs from the start date while the end date is not passed, prices none.
\<close>

theorem multi_day_allowance_counterexample:
  "well_timed reversed_dates_trip \<and>
   map_option date_of (seg_start reversed_dates_trip) = Some 739649 \<and>
   map_option date_of (seg_end reversed_dates_trip) = Some 739648 \<and>
   get_rates_for_country ascii_upper (country_code reversed_dates_trip) =
     Inr \<lparr>full_day = 28, partial_day = 14\<rparr> \<and>
   calculate_day_allowance reversed_dates_trip \<lparr>full_day = 28, partial_day = 14\<rparr> =
     Inr (0, [])"
  by code_simp



section \<open>Properties of the meal deduction calculator\<close>

lemma provided_by_day_matching:
  "provided_by_day meals d = matching_record meals d"
proof (induction meals)
  case Nil
  show ?case by (simp add: matching_record_def)
next
  case (Cons entry rest)
  show ?case
  proof (cases "filter (\<lambda>m. day m = d) rest")
    case Nil
    with Cons show ?thesis
      by (simp add: matching_record_def)
  next
    case (Cons m ms)
    with Cons.IH show ?thesis
      by (simp add: matching_record_def)
  qed
qed

lemma matching_record_None:
  "matching_record meals d = None \<longleftrightarrow> (\<forall>m \<in> set meals. day m \<noteq> d)"
proof -
  have "matching_record meals d = None \<longleftrightarrow> filter (\<lambda>m. day m = d) meals = []"
    by (simp add: matching_record_def split: list.splits)
  then show ?thesis by (simp add: filter_empty_conv)
qed

lemma matching_record_Some:
  assumes "matching_record meals d = Some m"
  shows "m \<in> set meals \<and> day m = d"
proof -
  from assms obtain x xs where f: "filter (\<lambda>m. day m = d) meals = x # xs" "m = last (x # xs)"
    by (auto simp: matching_record_def split: list.splits)
  then have "m \<in> set (filter (\<lambda>m. day m = d) meals)"
    by (metis last_in_set list.distinct(1))
  then show ?thesis by simp
qed

lemma meals_loop_total:
  "fst (meals_loop MEAL_DEDUCTION_RATES meals d full_day_rate 0 steps) =
     day_deduction_spec full_day_rate meals"
  by (simp add: MEAL_DEDUCTION_RATES_def day_deduction_spec_def Let_def)

lemma cents_day_deduction: "cents (day_deduction_spec full_day_rate meals)"
  by (simp add: day_deduction_spec_def cents_add)

lemma cents_meal_deduction: "cents (meal_deduction_spec by_day full_day_rate first_day last_day)"
  unfolding meal_deduction_spec_def
  by (rule cents_sum_list) (auto simp: cents_day_deduction split: option.splits)

lemma meal_deduction_spec_step:
  "current_day \<le> end_day \<Longrightarrow>
     meal_deduction_spec by_day full_day_rate current_day end_day =
       (case by_day current_day of None \<Rightarrow> 0
        | Some meals \<Rightarrow> day_deduction_spec full_day_rate meals)
       + meal_deduction_spec by_day full_day_rate (current_day + 1) end_day"
  by (simp add: meal_deduction_spec_def upto_rec1)

lemma meal_deduction_spec_done:
  "\<not> current_day \<le> end_day \<Longrightarrow> meal_deduction_spec by_day full_day_rate current_day end_day = 0"
  by (simp add: meal_deduction_spec_def)

lemma deduction_loop_total:
  "end_day < MAX_ORDINAL \<Longrightarrow>
     \<exists>steps'. deduction_loop current_day end_day by_day full_day_rate tot steps =
       Inr (tot + meal_deduction_spec by_day full_day_rate current_day end_day, steps')"
proof (induction current_day end_day by_day full_day_rate tot steps rule: deduction_loop.induct)
  case (1 current_day end_day by_day full_day_rate tot steps)
  show ?case
  proof (cases "current_day \<le> end_day")
    case False
    then show ?thesis
      by (subst deduction_loop.simps) (simp add: meal_deduction_spec_done)
  next
    case True
    with "1.prems" have n: "next_day current_day = Inr (current_day + 1)"
      by (simp add: next_day_def)
    note step = meal_deduction_spec_step[OF True, of by_day full_day_rate]
    show ?thesis
    proof (cases "by_day current_day")
      case None
      from "1.IH"(1)[OF True None n "1.prems"] obtain steps' where
        "deduction_loop (current_day + 1) end_day by_day full_day_rate tot steps =
           Inr (tot + meal_deduction_spec by_day full_day_rate (current_day + 1) end_day, steps')"
        by blast
      with True None n show ?thesis
        by (subst deduction_loop.simps) (simp add: step)
    next
      case (Some meals)
      obtain day_total steps1 where
        ml: "meals_loop MEAL_DEDUCTION_RATES meals current_day full_day_rate 0 steps
               = (day_total, steps1)"
        by (cases "meals_loop MEAL_DEDUCTION_RATES meals current_day full_day_rate 0 steps")
      have dt: "day_total = day_deduction_spec full_day_rate meals"
        using meals_loop_total[of meals current_day full_day_rate steps] by (simp add: ml)
      show ?thesis
      proof (cases "day_total = 0")
        case zero: True
        have nz: "\<not> day_total \<noteq> 0" using zero by simp
        from "1.IH"(3)[OF True Some ml[symmetric] nz n "1.prems"] obtain steps' where
          "deduction_loop (current_day + 1) end_day by_day full_day_rate tot steps1 =
             Inr (tot + meal_deduction_spec by_day full_day_rate (current_day + 1) end_day,
                  steps')"
          by blast
        with True Some ml zero dt n show ?thesis
          by (subst deduction_loop.simps) (simp add: step)
      next
        case nonzero: False
        from "1.IH"(2)[OF True Some ml[symmetric] nonzero n "1.prems"] obtain steps' where
          "deduction_loop (current_day + 1) end_day by_day full_day_rate (tot + day_total)
             (steps1 @ [MealSubtotalStep current_day day_total]) =
           Inr (tot + day_total +
                  meal_deduction_spec by_day full_day_rate (current_day + 1) end_day, steps')"
          by blast
        with True Some ml nonzero dt n show ?thesis
          by (subst deduction_loop.simps) (simp add: step add.assoc)
      qed
    qed
  qed
qed

lemma deduction_loop_overflow:
  "current_day \<le> end_day \<Longrightarrow> MAX_ORDINAL \<le> end_day \<Longrightarrow>
     deduction_loop current_day end_day by_day full_day_rate tot steps = Inl OverflowError"
proof (induction current_day end_day by_day full_day_rate tot steps rule: deduction_loop.induct)
  case (1 current_day end_day by_day full_day_rate tot steps)
  note le = "1.prems"(1) and mx = "1.prems"(2)
  show ?case
  proof (cases "MAX_ORDINAL < current_day + 1")
    case True
    then have n: "next_day current_day = Inl OverflowError"
      by (simp add: next_day_def)
    with le show ?thesis
      by (subst deduction_loop.simps) (simp split: option.splits prod.splits)
  next
    case False
    then have n: "next_day current_day = Inr (current_day + 1)"
      by (simp add: next_day_def)
    from False mx have le': "current_day + 1 \<le> end_day" by simp
    show ?thesis
    proof (cases "by_day current_day")
      case None
      from "1.IH"(1)[OF le None n le' mx] le None n show ?thesis
        by (subst deduction_loop.simps) simp
    next
      case (Some meals)
      obtain day_total steps1 where
        ml: "meals_loop MEAL_DEDUCTION_RATES meals current_day full_day_rate 0 steps
               = (day_total, steps1)"
        by (cases "meals_loop MEAL_DEDUCTION_RATES meals current_day full_day_rate 0 steps")
      show ?thesis
      proof (cases "day_total = 0")
        case zero: True
        have nz: "\<not> day_total \<noteq> 0" using zero by simp
        from "1.IH"(3)[OF le Some ml[symmetric] nz n le' mx] le Some ml zero n show ?thesis
          by (subst deduction_loop.simps) simp
      next
        case nonzero: False
        from "1.IH"(2)[OF le Some ml[symmetric] nonzero n le' mx] le Some ml nonzero n
        show ?thesis
          by (subst deduction_loop.simps) simp
      qed
    qed
  qed
qed

lemma meal_deductions_unquantized_total:
  assumes "seg_start seg = Some s" and "seg_end seg = Some e" and "date_of e < MAX_ORDINAL"
  shows "\<exists>steps. meal_deductions_unquantized seg full_day_rate =
           Inr (meal_deduction_spec (matching_record (provided_meals seg)) full_day_rate
                  (date_of s) (date_of e), steps)"
proof -
  have m: "provided_by_day (provided_meals seg) = matching_record (provided_meals seg)"
    by (rule ext) (rule provided_by_day_matching)
  show ?thesis
    using assms(1,2)
      deduction_loop_total[OF assms(3), of "date_of s" "matching_record (provided_meals seg)"
        full_day_rate 0 "[]"]
    by (simp add: meal_deductions_unquantized_def m)
qed

lemma meal_deductions_unquantized_empty:
  assumes "seg_start seg = Some s" and "seg_end seg = Some e" and "date_of e < date_of s"
  shows "meal_deductions_unquantized seg full_day_rate = Inr (0, [])"
  using assms by (simp add: meal_deductions_unquantized_def deduction_loop.simps)

lemma meal_deductions_unquantized_overflow:
  assumes "seg_start seg = Some s" and "seg_end seg = Some e"
    and "date_of s \<le> date_of e" and "MAX_ORDINAL \<le> date_of e"
  shows "meal_deductions_unquantized seg full_day_rate = Inl OverflowError"
  using assms by (simp add: meal_deductions_unquantized_def deduction_loop_overflow)

lemma calculate_meal_deductions_total:
  assumes "seg_start seg = Some s" and "seg_end seg = Some e" and "date_of e < MAX_ORDINAL"
  shows "\<exists>steps. calculate_meal_deductions seg full_day_rate =
           Inr (meal_deduction_spec (matching_record (provided_meals seg)) full_day_rate
                  (date_of s) (date_of e), steps)"
proof -
  let ?d = "meal_deduction_spec (matching_record (provided_meals seg)) full_day_rate
              (date_of s) (date_of e)"
  from meal_deductions_unquantized_total[OF assms, of full_day_rate] obtain steps where
    u: "meal_deductions_unquantized seg full_day_rate = Inr (?d, steps)"
    by blast
  have "money ?d = ?d"
    by (rule money_cents) (rule cents_meal_deduction)
  then show ?thesis
    by (simp add: calculate_meal_deductions_def u)
qed

lemma calculate_meal_deductions_overflow:
  assumes "seg_start seg = Some s" and "seg_end seg = Some e"
    and "date_of s \<le> date_of e" and "MAX_ORDINAL \<le> date_of e"
  shows "calculate_meal_deductions seg full_day_rate = Inl OverflowError"
  by (simp add: calculate_meal_deductions_def meal_deductions_unquantized_overflow[OF assms])

section \<open>Properties of one step of the aggregator\<close>

lemma calculate_day_allowance_cents:
  "calculate_day_allowance seg rates = Inr (g, steps) \<Longrightarrow> cents g"
  by (auto simp: calculate_day_allowance_def split: sum.splits prod.splits)

lemma calculate_meal_deductions_cents:
  "calculate_meal_deductions seg full_day_rate = Inr (d, steps) \<Longrightarrow> cents d"
  by (auto simp: calculate_meal_deductions_def split: sum.splits prod.splits)

lemma day_allowance_unquantized_empty:
  assumes "seg_start seg = Some s" and "seg_end seg = Some e" and "date_of e < date_of s"
  shows "day_allowance_unquantized seg rates = Inr (0, [])"
  using assms by (simp add: day_allowance_unquantized_def Let_def day_loop.simps)

lemma calculate_day_allowance_returns:
  assumes "seg_start seg = Some s" and "seg_end seg = Some e"
    and "\<not> steps_past_last_date seg"
  shows "\<exists>g steps. calculate_day_allowance seg rates = Inr (g, steps)"
proof -
  consider "date_of s = date_of e" | "date_of s < date_of e" | "date_of e < date_of s"
    by linarith
  then show ?thesis
  proof cases
    case 1
    from calculate_day_allowance_single[OF assms(1,2) 1, of rates] show ?thesis by blast
  next
    case 2
    with assms have "date_of e < MAX_ORDINAL" "date_of s \<noteq> date_of e"
      by (simp_all add: steps_past_last_date_def)
    from calculate_day_allowance_multi[OF assms(1,2) this(2,1), of rates] show ?thesis
      by blast
  next
    case 3
    from day_allowance_unquantized_empty[OF assms(1,2) 3, of rates] show ?thesis
      by (simp add: calculate_day_allowance_def)
  qed
qed

lemma calculate_meal_deductions_returns:
  assumes "seg_start seg = Some s" and "seg_end seg = Some e"
    and "\<not> steps_past_last_date seg"
  shows "\<exists>d steps. calculate_meal_deductions seg full_day_rate = Inr (d, steps)"
proof (cases "date_of e < date_of s")
  case True
  from meal_deductions_unquantized_empty[OF assms(1,2) True, of full_day_rate] show ?thesis
    by (simp add: calculate_meal_deductions_def)
next
  case False
  with assms have "date_of e < MAX_ORDINAL"
    by (simp add: steps_past_last_date_def)
  from calculate_meal_deductions_total[OF assms(1,2) this, of full_day_rate] show ?thesis
    by blast
qed

lemma calculate_segment_Inr:
  assumes r: "get_rates_for_country up (country_code seg) = Inr rates"
    and g: "calculate_day_allowance seg rates = Inr (g, gsteps)"
    and d: "calculate_meal_deductions seg (full_day rates) = Inr (d, dsteps)"
  shows "calculate_segment up seg st =
           Inr \<lparr>cs_steps = cs_steps st @
                   ([TripRatesStep (trip_id seg) (up (country_code seg) = ''DE'')
                       (full_day rates) (partial_day rates)] @ gsteps @ dsteps @
                    [TripSubtotalStep (trip_id seg) g d (g - d)]),
                 cs_by_trip = cs_by_trip st @
                   [\<lparr>pt_trip_id = trip_id seg,
                     pt_country_code = up (country_code seg),
                     pt_gross_allowance = g,
                     pt_meal_deductions = d,
                     pt_net_allowance = g - d,
                     pt_calculation_steps =
                       [TripRatesStep (trip_id seg) (up (country_code seg) = ''DE'')
                          (full_day rates) (partial_day rates)] @ gsteps @ dsteps @
                       [TripSubtotalStep (trip_id seg) g d (g - d)]\<rparr>],
                 cs_gross_total = cs_gross_total st + g,
                 cs_meal_deduction_total = cs_meal_deduction_total st + d\<rparr>"
proof -
  have cg: "cents g" using g by (rule calculate_day_allowance_cents)
  have cd: "cents d" using d by (rule calculate_meal_deductions_cents)
  have m: "money g = g" "money d = d" "money (g - d) = g - d"
    using cg cd by (simp_all add: money_cents cents_diff)
  show ?thesis
    by (simp add: calculate_segment_def r g d Let_def m)
qed

lemma calculate_segment_overflow:
  assumes r: "get_rates_for_country up (country_code seg) = Inr rates"
    and p: "steps_past_last_date seg"
  shows "calculate_segment up seg st = Inl OverflowError"
proof -
  from p obtain s e where se: "seg_start seg = Some s" "seg_end seg = Some e"
    and le: "date_of s \<le> date_of e" and mx: "MAX_ORDINAL \<le> date_of e"
    by (auto simp: steps_past_last_date_def split: option.splits)
  note md = calculate_meal_deductions_overflow[OF se le mx, of "full_day rates"]
  show ?thesis
  proof (cases "date_of s = date_of e")
    case True
    from calculate_day_allowance_single[OF se True, of rates] obtain g gsteps where
      "calculate_day_allowance seg rates = Inr (g, gsteps)" by blast
    then show ?thesis
      by (simp add: calculate_segment_def r md Let_def)
  next
    case False
    with le have "date_of s < date_of e" by simp
    from calculate_day_allowance_overflow[OF se this mx, of rates] show ?thesis
      by (simp add: calculate_segment_def r Let_def)
  qed
qed

text \<open>
  C3. The meal deduction of a segment is the sum, over every calendar date from its first to
  its last day that has a matching record, of the quantized share of the full-day rate of
  the segment's country for each meal that record marks true (breakfast 20 percent, lunch
  and dinner 40 percent each); a date without a record contributes nothing. The full-day
  rate is used whatever rate priced the day itself. That sum is what the calculator returns
  and what the per-trip record reports, for every segment that ends before 9999-12-31. On
  a segment that ends on 9999-12-31 the calculator raises \<open>OverflowError\<close> instead: its loop
  adds a day to the last date after having visited it.
\<close>

theorem meal_deductions_formula:
  assumes "seg_start seg = Some s" and "seg_end seg = Some e"
    and "get_rates_for_country up (country_code seg) = Inr rates"
  shows "(date_of e < MAX_ORDINAL \<longrightarrow>
            (\<exists>steps. calculate_meal_deductions seg (full_day rates) =
               Inr (meal_deduction_spec (matching_record (provided_meals seg)) (full_day rates)
                      (date_of s) (date_of e), steps))
            \<and> (\<exists>st'. calculate_segment up seg st = Inr st' \<and>
                  pt_meal_deductions (last (cs_by_trip st')) =
                    meal_deduction_spec (matching_record (provided_meals seg)) (full_day rates)
                      (date_of s) (date_of e)))
         \<and> (date_of s \<le> date_of e \<and> MAX_ORDINAL \<le> date_of e \<longrightarrow>
              calculate_meal_deductions seg (full_day rates) = Inl OverflowError \<and>
              calculate_segment up seg st = Inl OverflowError)"
proof (intro conjI impI)
  assume lt: "date_of e < MAX_ORDINAL"
  obtain dsteps where
    d: "calculate_meal_deductions seg (full_day rates) =
          Inr (meal_deduction_spec (matching_record (provided_meals seg)) (full_day rates)
                 (date_of s) (date_of e), dsteps)"
    using calculate_meal_deductions_total[OF assms(1,2) lt] by blast
  from lt assms(1,2) have "\<not> steps_past_last_date seg"
    by (simp add: steps_past_last_date_def)
  then obtain g gsteps where g: "calculate_day_allowance seg rates = Inr (g, gsteps)"
    using calculate_day_allowance_returns[OF assms(1,2)] by blast
  show "\<exists>steps. calculate_meal_deductions seg (full_day rates) =
               Inr (meal_deduction_spec (matching_record (provided_meals seg)) (full_day rates)
                      (date_of s) (date_of e), steps)"
    using d by blast
  show "\<exists>st'. calculate_segment up seg st = Inr st' \<and>
                  pt_meal_deductions (last (cs_by_trip st')) =
                    meal_deduction_spec (matching_record (provided_meals seg)) (full_day rates)
                      (date_of s) (date_of e)"
    by (simp add: calculate_segment_Inr[OF assms(3) g d])
next
  assume a: "date_of s \<le> date_of e \<and> MAX_ORDINAL \<le> date_of e"
  then show "calculate_meal_deductions seg (full_day rates) = Inl OverflowError"
    using calculate_meal_deductions_overflow[OF assms(1,2)] by blast
  from a assms(1,2) have "steps_past_last_date seg"
    by (simp add: steps_past_last_date_def)
  then show "calculate_segment up seg st = Inl OverflowError"
    by (rule calculate_segment_overflow[OF assms(3)])
qed

text \<open>The three-day domestic segment with breakfast and lunch on the middle day: deductions
  16.80, and \<open>calculate\<close> reports deductions 16.80 and net allowance 39.20. The day trip on
  9999-12-31: \<open>OverflowError\<close>.\<close>

lemma calculate_trip_2026_02:
  "(case calculate ascii_upper [trip_2026_02] of
      Inl e \<Rightarrow> False
    | Inr r \<Rightarrow> gross_allowance (totals r) = 56 \<and> meal_deductions (totals r) = 84 / 5 \<and>
        net_allowance (totals r) = 196 / 5 \<and>
        map pt_meal_deductions (by_trip r) = [84 / 5] \<and>
        map pt_net_allowance (by_trip r) = [196 / 5])"
  by code_simp

theorem meal_deductions_formula_witness:
  "(\<exists>steps. calculate_meal_deductions trip_2026_02 28 = Inr (84 / 5, steps)) \<and>
   (case calculate ascii_upper [trip_2026_02] of
      Inl e \<Rightarrow> False
    | Inr r \<Rightarrow> meal_deductions (totals r) = 84 / 5 \<and> net_allowance (totals r) = 196 / 5) \<and>
   calculate_meal_deductions last_day_trip 28 = Inl OverflowError"
proof -
  let ?R = "\<lparr>full_day = 28, partial_day = 14\<rparr>"
  let ?S = "at_time 739648 8 0" and ?E = "at_time 739650 18 0"
  let ?S' = "at_time 3652059 8 0" and ?E' = "at_time 3652059 18 0"
  have r: "get_rates_for_country ascii_upper (country_code trip_2026_02) = Inr ?R"
    by (simp add: trip_2026_02_def get_rates_domestic upper_DE)
  have a: "seg_start trip_2026_02 = Some ?S" and b: "seg_end trip_2026_02 = Some ?E"
    by (simp_all add: trip_2026_02_def)
  have v: "meal_deduction_spec (matching_record (provided_meals trip_2026_02)) 28
             (date_of ?S) (date_of ?E) = 84 / 5"
    by code_simp
  have f: "full_day ?R = 28" by simp
  have lt: "date_of ?E < MAX_ORDINAL"
    by (simp add: date_of_at_time MAX_ORDINAL_def)
  have "\<exists>steps. calculate_meal_deductions trip_2026_02 (full_day ?R) =
          Inr (meal_deduction_spec (matching_record (provided_meals trip_2026_02)) (full_day ?R)
                 (date_of ?S) (date_of ?E), steps)"
    using meal_deductions_formula[OF a b r] lt by blast
  then have one: "\<exists>steps. calculate_meal_deductions trip_2026_02 28 = Inr (84 / 5, steps)"
    unfolding f v .
  have two: "(case calculate ascii_upper [trip_2026_02] of
      Inl e \<Rightarrow> False
    | Inr r \<Rightarrow> meal_deductions (totals r) = 84 / 5 \<and> net_allowance (totals r) = 196 / 5)"
    using calculate_trip_2026_02 by (simp split: sum.splits)
  have r': "get_rates_for_country ascii_upper (country_code last_day_trip) = Inr ?R"
    by (simp add: last_day_trip_def slot_def get_rates_domestic upper_DE)
  have a': "seg_start last_day_trip = Some ?S'" and b': "seg_end last_day_trip = Some ?E'"
    by (simp_all add: last_day_trip_def slot_def)
  have mx: "date_of ?S' \<le> date_of ?E' \<and> MAX_ORDINAL \<le> date_of ?E'"
    by (simp add: date_of_at_time MAX_ORDINAL_def)
  have "calculate_meal_deductions last_day_trip (full_day ?R) = Inl OverflowError"
    using meal_deductions_formula[OF a' b' r'] mx by blast
  then have three: "calculate_meal_deductions last_day_trip 28 = Inl OverflowError"
    unfolding f .
  from one two three show ?thesis by simp
qed

section \<open>Properties of the duplicate receipt check\<close>

lemma receipts_loop_ok:
  "distinct (map receipt_id rs) \<Longrightarrow> set (map receipt_id rs) \<inter> dom seen = {} \<Longrightarrow>
     \<exists>seen'. receipts_loop tid rs seen = Inr seen' \<and>
             dom seen' = dom seen \<union> set (map receipt_id rs)"
proof (induction rs arbitrary: seen)
  case Nil
  then show ?case by simp
next
  case (Cons r rs)
  from Cons.prems have none: "seen (receipt_id r) = None" by auto
  from Cons.prems have
    "distinct (map receipt_id rs)"
    "set (map receipt_id rs) \<inter> dom (seen(receipt_id r \<mapsto> tid)) = {}"
    by auto
  from Cons.IH[OF this] obtain seen' where
    "receipts_loop tid rs (seen(receipt_id r \<mapsto> tid)) = Inr seen'"
    "dom seen' = dom (seen(receipt_id r \<mapsto> tid)) \<union> set (map receipt_id rs)"
    by blast
  with none show ?case by auto
qed

lemma receipts_loop_duplicate:
  "\<not> (distinct (map receipt_id rs) \<and> set (map receipt_id rs) \<inter> dom seen = {}) \<Longrightarrow>
     \<exists>rid owner. receipts_loop tid rs seen = Inl (DuplicateReceipt rid owner tid)"
proof (induction rs arbitrary: seen)
  case Nil
  then show ?case by simp
next
  case (Cons r rs)
  show ?case
  proof (cases "seen (receipt_id r)")
    case (Some owner)
    then show ?thesis by simp
  next
    case None
    with Cons.prems have
      "\<not> (distinct (map receipt_id rs) \<and>
          set (map receipt_id rs) \<inter> dom (seen(receipt_id r \<mapsto> tid)) = {})"
      by auto
    from Cons.IH[OF this] obtain rid owner where
      e: "receipts_loop tid rs (seen(receipt_id r \<mapsto> tid)) =
            Inl (DuplicateReceipt rid owner tid)"
      by blast
    have "receipts_loop tid (r # rs) seen = receipts_loop tid rs (seen(receipt_id r \<mapsto> tid))"
      by (simp add: None)
    then show ?thesis unfolding e by blast
  qed
qed


lemma batch_receipt_ids_Cons:
  "batch_receipt_ids (seg # rest) = map receipt_id (receipts seg) @ batch_receipt_ids rest"
  by (simp add: batch_receipt_ids_def)

lemma batch_receipt_ids_Nil [simp]: "batch_receipt_ids [] = []"
  by (simp add: batch_receipt_ids_def)

lemma duplicates_loop_prefix:
  "distinct (batch_receipt_ids pre) \<Longrightarrow> set (batch_receipt_ids pre) \<inter> dom seen = {} \<Longrightarrow>
     \<exists>seen'. dom seen' = dom seen \<union> set (batch_receipt_ids pre) \<and>
             duplicates_loop (pre @ rest) seen = duplicates_loop rest seen'"
proof (induction pre arbitrary: seen)
  case Nil
  show ?case by (intro exI[of _ seen]) simp
next
  case (Cons seg pre)
  from Cons.prems have
    "distinct (map receipt_id (receipts seg))"
    "set (map receipt_id (receipts seg)) \<inter> dom seen = {}"
    by (auto simp: batch_receipt_ids_Cons)
  from receipts_loop_ok[OF this, of "trip_id seg"] obtain seen1 where
    s1: "receipts_loop (trip_id seg) (receipts seg) seen = Inr seen1"
    "dom seen1 = dom seen \<union> set (map receipt_id (receipts seg))"
    by blast
  from Cons.prems s1(2) have
    "distinct (batch_receipt_ids pre)" "set (batch_receipt_ids pre) \<inter> dom seen1 = {}"
    by (auto simp: batch_receipt_ids_Cons)
  from Cons.IH[OF this] obtain seen' where
    s2: "dom seen' = dom seen1 \<union> set (batch_receipt_ids pre)"
    "duplicates_loop (pre @ rest) seen1 = duplicates_loop rest seen'"
    by blast
  have "dom seen' = dom seen \<union> set (batch_receipt_ids (seg # pre))"
    using s1(2) s2(1) by (auto simp: batch_receipt_ids_Cons)
  moreover have "duplicates_loop ((seg # pre) @ rest) seen = duplicates_loop rest seen'"
    using s1(1) s2(2) by simp
  ultimately show ?case by blast
qed

lemma duplicates_loop_ok:
  assumes "distinct (batch_receipt_ids segs)" and "set (batch_receipt_ids segs) \<inter> dom seen = {}"
  shows "duplicates_loop segs seen = Inr ()"
  using duplicates_loop_prefix[OF assms, of "[]"] by auto

lemma duplicates_loop_duplicate:
  "\<not> (distinct (batch_receipt_ids segs) \<and> set (batch_receipt_ids segs) \<inter> dom seen = {}) \<Longrightarrow>
     \<exists>rid owner t. duplicates_loop segs seen = Inl (DuplicateReceipt rid owner t)"
proof (induction segs arbitrary: seen)
  case Nil
  then show ?case by simp
next
  case (Cons seg segs)
  show ?case
  proof (cases "distinct (map receipt_id (receipts seg)) \<and>
                 set (map receipt_id (receipts seg)) \<inter> dom seen = {}")
    case False
    from receipts_loop_duplicate[OF False, of "trip_id seg"] show ?thesis by auto
  next
    case True
    then obtain seen1 where
      s1: "receipts_loop (trip_id seg) (receipts seg) seen = Inr seen1"
      "dom seen1 = dom seen \<union> set (map receipt_id (receipts seg))"
      using receipts_loop_ok[of "receipts seg" seen "trip_id seg"] by blast
    from Cons.prems True s1(2) have
      "\<not> (distinct (batch_receipt_ids segs) \<and> set (batch_receipt_ids segs) \<inter> dom seen1 = {})"
      by (auto simp: batch_receipt_ids_Cons)
    from Cons.IH[OF this] s1(1) show ?thesis by simp
  qed
qed

lemma validate_duplicate_receipts_ok:
  "distinct (batch_receipt_ids segs) \<Longrightarrow> validate_duplicate_receipts segs = Inr ()"
  by (simp add: validate_duplicate_receipts_def duplicates_loop_ok)

lemma validate_duplicate_receipts_duplicate:
  "\<not> distinct (batch_receipt_ids segs) \<Longrightarrow>
     \<exists>rid owner t. validate_duplicate_receipts segs = Inl (DuplicateReceipt rid owner t)"
  by (simp add: validate_duplicate_receipts_def duplicates_loop_duplicate)



section \<open>Properties of the overlap check\<close>

lemma well_timedE:
  assumes "well_timed seg"
  obtains s e where "seg_start seg = Some s" "seg_end seg = Some e" "instant s < instant e"
  using assms by (auto simp: well_timed_def split: option.splits)

lemma overlaps_sym: "overlaps a b \<longleftrightarrow> overlaps b a"
  by (auto simp: overlaps_def split: option.splits)

lemma disjoint_insort_key:
  "sorted_wrt (\<lambda>a b. \<not> overlaps a b) (insort_key f x ys) \<longleftrightarrow>
     (\<forall>y \<in> set ys. \<not> overlaps x y) \<and> sorted_wrt (\<lambda>a b. \<not> overlaps a b) ys"
  by (induction ys) (auto simp: set_insort_key overlaps_sym)

lemma disjoint_sort_key:
  "sorted_wrt (\<lambda>a b. \<not> overlaps a b) (sort_key f xs) \<longleftrightarrow>
     sorted_wrt (\<lambda>a b. \<not> overlaps a b) xs"
  by (induction xs) (auto simp: disjoint_insort_key)

lemma some_pair_overlaps_iff:
  "some_pair_overlaps segs \<longleftrightarrow>
     (\<exists>i j. i < j \<and> j < length segs \<and> overlaps (segs ! i) (segs ! j))"
proof
  assume "some_pair_overlaps segs"
  then obtain j i where "j < length segs" "i < j" "overlaps (segs ! i) (segs ! j)"
    by (auto simp: some_pair_overlaps_def list_ex_iff)
  then show "\<exists>i j. i < j \<and> j < length segs \<and> overlaps (segs ! i) (segs ! j)"
    by blast
next
  assume "\<exists>i j. i < j \<and> j < length segs \<and> overlaps (segs ! i) (segs ! j)"
  then obtain i j where "i < j" "j < length segs" "overlaps (segs ! i) (segs ! j)"
    by blast
  then have "j \<in> set [0..<length segs]" "i \<in> set [0..<j]"
    by simp_all
  with \<open>overlaps (segs ! i) (segs ! j)\<close> show "some_pair_overlaps segs"
    unfolding some_pair_overlaps_def list_ex_iff by blast
qed

lemma pair_overlaps_iff_not_disjoint:
  "(\<exists>i j. i < j \<and> j < length segs \<and> overlaps (segs ! i) (segs ! j)) \<longleftrightarrow>
     \<not> sorted_wrt (\<lambda>a b. \<not> overlaps a b) segs"
  by (auto simp: sorted_wrt_iff_nth_less)

lemma overlaps_loop_sorted:
  assumes "\<forall>s \<in> set ys. well_timed s" and "sorted (map start_key ys)"
  shows "if sorted_wrt (\<lambda>a b. \<not> overlaps a b) ys
         then overlaps_loop (zip ys (tl ys)) = Inr ()
         else (\<exists>p c. overlaps_loop (zip ys (tl ys)) = Inl (Overlap p c))"
  using assms
proof (induction ys rule: induct_list012)
  case 1
  then show ?case by simp
next
  case (2 x)
  then show ?case by simp
next
  case (3 x y rest)
  from "3.prems"(1) have "well_timed x" "well_timed y" by auto
  then obtain sx ex sy ey where
    x: "seg_start x = Some sx" "seg_end x = Some ex" "instant sx < instant ex" and
    y: "seg_start y = Some sy" "seg_end y = Some ey" "instant sy < instant ey"
    by (elim well_timedE) blast
  from "3.prems"(2) x y have le: "instant sx \<le> instant sy"
    by (simp add: start_key_def)
  show ?case
  proof (cases "instant sy < instant ex")
    case True
    then have "overlaps x y" using x y le by (simp add: overlaps_def)
    then have "\<not> sorted_wrt (\<lambda>a b. \<not> overlaps a b) (x # y # rest)" by auto
    moreover have "overlaps_loop (zip (x # y # rest) (tl (x # y # rest))) =
                     Inl (Overlap (trip_id x) (trip_id y))"
      using True x y by simp
    ultimately show ?thesis by simp
  next
    case False
    have far: "\<not> overlaps x z" if "z \<in> set (y # rest)" for z
    proof -
      from that "3.prems"(1) have "well_timed z" by auto
      then obtain sz ez where
        z: "seg_start z = Some sz" "seg_end z = Some ez" "instant sz < instant ez"
        by (rule well_timedE)
      from that "3.prems"(2) y have "start_key y \<le> start_key z" by auto
      with y z have "instant sy \<le> instant sz" by (simp add: start_key_def)
      with False show ?thesis using x z by (simp add: overlaps_def)
    qed
    have step: "overlaps_loop (zip (x # y # rest) (tl (x # y # rest))) =
                  overlaps_loop (zip (y # rest) (tl (y # rest)))"
      using False x y by simp
    have d: "sorted_wrt (\<lambda>a b. \<not> overlaps a b) (x # y # rest) \<longleftrightarrow>
               sorted_wrt (\<lambda>a b. \<not> overlaps a b) (y # rest)"
      using far by auto
    have "\<forall>s \<in> set (y # rest). well_timed s" "sorted (map start_key (y # rest))"
      using "3.prems" by auto
    from "3.IH"(2)[OF this] show ?thesis
      unfolding step d .
  qed
qed

lemma sorted_by_start_well_timed:
  assumes "\<forall>s \<in> set segs. well_timed s"
  shows "sorted_by_start segs = Inr (sort_key start_key segs)"
proof -
  have "\<not> list_ex (\<lambda>s. seg_start s = None) segs"
    using assms by (auto simp: list_ex_iff elim: well_timedE)
  then show ?thesis by (simp add: sorted_by_start_def)
qed

lemma validate_overlaps_well_timed:
  assumes "\<forall>s \<in> set segs. well_timed s"
  shows "if (\<exists>i j. i < j \<and> j < length segs \<and> overlaps (segs ! i) (segs ! j))
         then (\<exists>p c. validate_overlaps segs = Inl (Overlap p c))
         else validate_overlaps segs = Inr ()"
proof -
  let ?ys = "sort_key start_key segs"
  have "\<forall>s \<in> set ?ys. well_timed s" "sorted (map start_key ?ys)"
    using assms by simp_all
  from overlaps_loop_sorted[OF this] show ?thesis
    by (simp add: validate_overlaps_def sorted_by_start_well_timed[OF assms]
          disjoint_sort_key pair_overlaps_iff_not_disjoint)
qed



section \<open>Properties of the validator as a whole\<close>

lemma timing_loop_ok:
  "\<forall>s \<in> set segs. well_timed s \<Longrightarrow> timing_loop segs = Inr ()"
  by (induction segs) (auto elim!: well_timedE)

lemma timing_loop_fails:
  "\<not> (\<forall>s \<in> set segs. well_timed s) \<Longrightarrow>
     \<exists>t. timing_loop segs = Inl (MissingStartEnd t) \<or> timing_loop segs = Inl (ImpossibleSpan t)"
proof (induction segs)
  case Nil
  then show ?case by simp
next
  case (Cons seg segs)
  show ?case
  proof (cases "well_timed seg")
    case True
    with Cons have
      "\<exists>t. timing_loop segs = Inl (MissingStartEnd t) \<or> timing_loop segs = Inl (ImpossibleSpan t)"
      by simp
    with True show ?thesis by (auto elim!: well_timedE)
  next
    case False
    then show ?thesis
      by (auto simp: well_timed_def split: option.splits)
  qed
qed

lemma validate_segments_ok:
  assumes "segs \<noteq> []" and "\<forall>s \<in> set segs. well_timed s"
    and "\<not> (\<exists>i j. i < j \<and> j < length segs \<and> overlaps (segs ! i) (segs ! j))"
    and "distinct (batch_receipt_ids segs)"
  shows "validate_segments segs = Inr ()"
  using assms validate_overlaps_well_timed[OF assms(2)]
  by (simp add: validate_segments_def timing_loop_ok validate_duplicate_receipts_ok)

lemma validate_segments_fails:
  assumes "segs = [] \<or> \<not> (\<forall>s \<in> set segs. well_timed s)
           \<or> (\<exists>i j. i < j \<and> j < length segs \<and> overlaps (segs ! i) (segs ! j))
           \<or> \<not> distinct (batch_receipt_ids segs)"
  shows "\<exists>e. validate_segments segs = Inl e \<and> is_validation_error e"
proof (cases "segs = []")
  case True
  then show ?thesis by (simp add: validate_segments_def)
next
  case ne: False
  show ?thesis
  proof (cases "\<forall>s \<in> set segs. well_timed s")
    case False
    from timing_loop_fails[OF False] ne show ?thesis
      by (auto simp: validate_segments_def)
  next
    case wt: True
    note t = timing_loop_ok[OF wt]
    show ?thesis
    proof (cases "\<exists>i j. i < j \<and> j < length segs \<and> overlaps (segs ! i) (segs ! j)")
      case True
      with validate_overlaps_well_timed[OF wt] obtain p c where
        "validate_overlaps segs = Inl (Overlap p c)" by auto
      with ne t show ?thesis by (simp add: validate_segments_def)
    next
      case False
      with validate_overlaps_well_timed[OF wt] have v: "validate_overlaps segs = Inr ()"
        by simp
      from False wt ne assms have "\<not> distinct (batch_receipt_ids segs)" by blast
      from validate_duplicate_receipts_duplicate[OF this] obtain rid owner tid where
        "validate_duplicate_receipts segs = Inl (DuplicateReceipt rid owner tid)" by blast
      with ne t v show ?thesis by (simp add: validate_segments_def)
    qed
  qed
qed

lemma validate_segments_Inr_iff:
  "validate_segments segs = Inr () \<longleftrightarrow>
     segs \<noteq> [] \<and> (\<forall>s \<in> set segs. well_timed s)
     \<and> \<not> (\<exists>i j. i < j \<and> j < length segs \<and> overlaps (segs ! i) (segs ! j))
     \<and> distinct (batch_receipt_ids segs)"
proof
  assume ok: "validate_segments segs = Inr ()"
  show "segs \<noteq> [] \<and> (\<forall>s \<in> set segs. well_timed s)
     \<and> \<not> (\<exists>i j. i < j \<and> j < length segs \<and> overlaps (segs ! i) (segs ! j))
     \<and> distinct (batch_receipt_ids segs)"
  proof (rule ccontr)
    assume "\<not> ?thesis"
    then have "segs = [] \<or> \<not> (\<forall>s \<in> set segs. well_timed s)
           \<or> (\<exists>i j. i < j \<and> j < length segs \<and> overlaps (segs ! i) (segs ! j))
           \<or> \<not> distinct (batch_receipt_ids segs)"
      by blast
    from validate_segments_fails[OF this] ok show False by auto
  qed
next
  assume "segs \<noteq> [] \<and> (\<forall>s \<in> set segs. well_timed s)
     \<and> \<not> (\<exists>i j. i < j \<and> j < length segs \<and> overlaps (segs ! i) (segs ! j))
     \<and> distinct (batch_receipt_ids segs)"
  then show "validate_segments segs = Inr ()"
    using validate_segments_ok[of segs] by blast
qed

section \<open>Properties of the aggregator loop\<close>

lemma calculate_segment_unsupported:
  "\<not> supported_country up (country_code seg) \<Longrightarrow>
     calculate_segment up seg st = Inl (UnsupportedCountry (up (country_code seg)))"
  by (simp add: calculate_segment_def get_rates_unsupported)

lemma calculate_segment_supported:
  assumes "well_timed seg" and "supported_country up (country_code seg)"
    and "\<not> steps_past_last_date seg"
  shows "\<exists>st'. calculate_segment up seg st = Inr st' \<and>
            length (cs_by_trip st') = Suc (length (cs_by_trip st))"
proof -
  from assms(1) obtain s e where se: "seg_start seg = Some s" "seg_end seg = Some e"
    by (rule well_timedE)
  from assms(2) obtain rates where r: "get_rates_for_country up (country_code seg) = Inr rates"
    using get_rates_supported by blast
  obtain g gsteps where g: "calculate_day_allowance seg rates = Inr (g, gsteps)"
    using calculate_day_allowance_returns[OF se assms(3)] by blast
  obtain d dsteps where d: "calculate_meal_deductions seg (full_day rates) = Inr (d, dsteps)"
    using calculate_meal_deductions_returns[OF se assms(3)] by blast
  show ?thesis
    by (simp add: calculate_segment_Inr[OF r g d])
qed

lemma calculate_segment_past_last_date:
  assumes "supported_country up (country_code seg)" and "steps_past_last_date seg"
  shows "calculate_segment up seg st = Inl OverflowError"
proof -
  from assms(1) obtain rates where r: "get_rates_for_country up (country_code seg) = Inr rates"
    using get_rates_supported by blast
  from calculate_segment_overflow[OF r assms(2)] show ?thesis .
qed

lemma calculate_loop_supported:
  "\<forall>s \<in> set ys. well_timed s \<Longrightarrow> \<forall>s \<in> set ys. supported_country up (country_code s) \<Longrightarrow>
   \<forall>s \<in> set ys. \<not> steps_past_last_date s \<Longrightarrow>
     \<exists>st'. calculate_loop up ys st = Inr st' \<and>
            length (cs_by_trip st') = length (cs_by_trip st) + length ys"
proof (induction ys arbitrary: st)
  case Nil
  then show ?case by simp
next
  case (Cons seg ys)
  from Cons.prems obtain st1 where
    s1: "calculate_segment up seg st = Inr st1"
    "length (cs_by_trip st1) = Suc (length (cs_by_trip st))"
    using calculate_segment_supported[of seg up st] by auto
  from Cons.prems have "\<forall>s \<in> set ys. well_timed s"
    "\<forall>s \<in> set ys. supported_country up (country_code s)"
    "\<forall>s \<in> set ys. \<not> steps_past_last_date s" by auto
  from Cons.IH[OF this, of st1] s1 show ?case by auto
qed

lemma calculate_loop_unsupported:
  "\<forall>s \<in> set ys. well_timed s \<Longrightarrow> \<forall>s \<in> set ys. \<not> steps_past_last_date s \<Longrightarrow>
   \<not> (\<forall>s \<in> set ys. supported_country up (country_code s)) \<Longrightarrow>
     \<exists>c. calculate_loop up ys st = Inl (UnsupportedCountry c)"
proof (induction ys arbitrary: st)
  case Nil
  then show ?case by simp
next
  case (Cons seg ys)
  show ?case
  proof (cases "supported_country up (country_code seg)")
    case False
    then show ?thesis by (simp add: calculate_segment_unsupported)
  next
    case True
    with Cons.prems obtain st1 where s1: "calculate_segment up seg st = Inr st1"
      using calculate_segment_supported[of seg up st] by auto
    from Cons.prems True have "\<forall>s \<in> set ys. well_timed s"
      "\<forall>s \<in> set ys. \<not> steps_past_last_date s"
      "\<not> (\<forall>s \<in> set ys. supported_country up (country_code s))" by auto
    from Cons.IH[OF this, of st1] s1 show ?thesis by simp
  qed
qed

lemma calculate_loop_past_last_date:
  "\<forall>s \<in> set ys. well_timed s \<Longrightarrow> \<forall>s \<in> set ys. supported_country up (country_code s) \<Longrightarrow>
   \<not> (\<forall>s \<in> set ys. \<not> steps_past_last_date s) \<Longrightarrow>
     calculate_loop up ys st = Inl OverflowError"
proof (induction ys arbitrary: st)
  case Nil
  then show ?case by simp
next
  case (Cons seg ys)
  from Cons.prems have sup: "supported_country up (country_code seg)" by simp
  show ?case
  proof (cases "steps_past_last_date seg")
    case True
    from calculate_segment_past_last_date[OF sup True] show ?thesis by simp
  next
    case False
    with Cons.prems obtain st1 where s1: "calculate_segment up seg st = Inr st1"
      using calculate_segment_supported[of seg up st] by auto
    from Cons.prems False have "\<forall>s \<in> set ys. well_timed s"
      "\<forall>s \<in> set ys. supported_country up (country_code s)"
      "\<not> (\<forall>s \<in> set ys. \<not> steps_past_last_date s)" by auto
    from Cons.IH[OF this, of st1] s1 show ?thesis by simp
  qed
qed

section \<open>Properties of calculate\<close>

lemma calculate_invalid:
  assumes "validate_segments segs = Inl e"
  shows "calculate up segs = Inl e"
  using assms by (simp add: calculate_def)

lemma calculate_valid:
  assumes "validate_segments segs = Inr ()"
  shows "calculate up segs =
           (case calculate_loop up (sort_key start_key segs)
                   \<lparr>cs_steps = [RuleVersionStep RULE_VERSION], cs_by_trip = [],
                    cs_gross_total = 0, cs_meal_deduction_total = 0\<rparr> of
              Inl e \<Rightarrow> Inl e
            | Inr st \<Rightarrow>
                Inr \<lparr>rule_version = RULE_VERSION,
                     totals = \<lparr>gross_allowance = money (cs_gross_total st),
                                meal_deductions = money (cs_meal_deduction_total st),
                                net_allowance =
                                  money (cs_gross_total st - cs_meal_deduction_total st)\<rparr>,
                     calculation_steps = cs_steps st @
                       [OverallTotalStep (money (cs_gross_total st))
                          (money (cs_meal_deduction_total st))
                          (money (cs_gross_total st - cs_meal_deduction_total st))],
                     by_trip = cs_by_trip st\<rparr>)"
proof -
  from assms have "\<forall>s \<in> set segs. well_timed s"
    by (simp add: validate_segments_Inr_iff)
  then have "sorted_by_start segs = Inr (sort_key start_key segs)"
    by (rule sorted_by_start_well_timed)
  with assms show ?thesis
    by (simp add: calculate_def Let_def split: sum.splits)
qed

lemma precondition_violated_iff:
  "precondition_violated up segs \<longleftrightarrow>
     (segs = [] \<or> \<not> (\<forall>s \<in> set segs. well_timed s)
      \<or> (\<exists>i j. i < j \<and> j < length segs \<and> overlaps (segs ! i) (segs ! j))
      \<or> \<not> distinct (batch_receipt_ids segs))
     \<or> \<not> (\<forall>s \<in> set segs. supported_country up (country_code s))"
  by (auto simp: precondition_violated_def list_ex_iff some_pair_overlaps_iff)

lemma calculate_validation_fails:
  assumes "segs = [] \<or> \<not> (\<forall>s \<in> set segs. well_timed s)
      \<or> (\<exists>i j. i < j \<and> j < length segs \<and> overlaps (segs ! i) (segs ! j))
      \<or> \<not> distinct (batch_receipt_ids segs)"
  shows "\<exists>e. calculate up segs = Inl e \<and> is_validation_error e"
proof -
  from validate_segments_fails[OF assms] obtain e where
    "validate_segments segs = Inl e" "is_validation_error e" by blast
  then show ?thesis by (auto simp: calculate_invalid)
qed

lemma calculate_cases:
  "(\<not> list_ex steps_past_last_date segs \<longrightarrow>
      (if precondition_violated up segs
       then (\<exists>e. calculate up segs = Inl e \<and> is_validation_error e)
       else (\<exists>r. calculate up segs = Inr r \<and> rule_version r = RULE_VERSION \<and>
                  length (by_trip r) = length segs)))
   \<and> (\<not> precondition_violated up segs \<and> list_ex steps_past_last_date segs \<longrightarrow>
        calculate up segs = Inl OverflowError)"
proof (cases "segs = [] \<or> \<not> (\<forall>s \<in> set segs. well_timed s)
      \<or> (\<exists>i j. i < j \<and> j < length segs \<and> overlaps (segs ! i) (segs ! j))
      \<or> \<not> distinct (batch_receipt_ids segs)")
  case True
  from calculate_validation_fails[OF True] have
    "\<exists>e. calculate up segs = Inl e \<and> is_validation_error e" .
  moreover from True have "precondition_violated up segs"
    by (simp add: precondition_violated_iff)
  ultimately show ?thesis by simp
next
  case False
  let ?st0 = "\<lparr>cs_steps = [RuleVersionStep RULE_VERSION], cs_by_trip = [],
               cs_gross_total = 0, cs_meal_deduction_total = 0\<rparr>"
  let ?ys = "sort_key start_key segs"
  from False have v: "validate_segments segs = Inr ()"
    by (simp add: validate_segments_Inr_iff)
  from False have wt: "\<forall>s \<in> set ?ys. well_timed s" by simp
  note c = calculate_valid[OF v, of up]
  have p: "precondition_violated up segs \<longleftrightarrow>
             \<not> (\<forall>s \<in> set segs. supported_country up (country_code s))"
    unfolding precondition_violated_iff using False by blast
  have l: "list_ex steps_past_last_date segs \<longleftrightarrow>
             \<not> (\<forall>s \<in> set ?ys. \<not> steps_past_last_date s)"
    by (simp add: list_ex_iff)
  show ?thesis
  proof (cases "\<forall>s \<in> set segs. supported_country up (country_code s)")
    case True
    then have sup: "\<forall>s \<in> set ?ys. supported_country up (country_code s)"
      by simp
    show ?thesis
    proof (cases "list_ex steps_past_last_date segs")
      case past: True
      then have "calculate_loop up ?ys ?st0 = Inl OverflowError"
        unfolding l by (rule calculate_loop_past_last_date[OF wt sup])
      then have "calculate up segs = Inl OverflowError"
        by (simp add: c)
      with past show ?thesis by simp
    next
      case none: False
      then have "\<forall>s \<in> set ?ys. \<not> steps_past_last_date s"
        unfolding l by simp
      from calculate_loop_supported[OF wt sup this, of ?st0] obtain st' where
        "calculate_loop up ?ys ?st0 = Inr st'" "length (cs_by_trip st') = length segs"
        by fastforce
      then have "\<exists>r. calculate up segs = Inr r \<and> rule_version r = RULE_VERSION \<and>
              length (by_trip r) = length segs"
        by (simp add: c)
      with none True p show ?thesis by simp
    qed
  next
    case unsupported: False
    then have viol: "precondition_violated up segs" by (simp add: p)
    have "\<not> list_ex steps_past_last_date segs \<longrightarrow>
            (\<exists>e. calculate up segs = Inl e \<and> is_validation_error e)"
    proof
      assume "\<not> list_ex steps_past_last_date segs"
      then have n: "\<forall>s \<in> set ?ys. \<not> steps_past_last_date s"
        unfolding l by simp
      from unsupported have
        "\<not> (\<forall>s \<in> set ?ys. supported_country up (country_code s))" by simp
      from calculate_loop_unsupported[OF wt n this, of ?st0] obtain code where
        "calculate_loop up ?ys ?st0 = Inl (UnsupportedCountry code)" by blast
      then have "calculate up segs = Inl (UnsupportedCountry code)"
        by (simp add: c)
      then show "\<exists>e. calculate up segs = Inl e \<and> is_validation_error e" by simp
    qed
    with viol show ?thesis by simp
  qed
qed

lemma calculate_returns:
  "\<not> precondition_violated up segs \<Longrightarrow> \<not> list_ex steps_past_last_date segs \<Longrightarrow>
     \<exists>r. calculate up segs = Inr r"
  using calculate_cases[of segs up] by auto






section \<open>Totals and per-trip values\<close>

lemma day_allowance_unquantized_cents:
  assumes c: "cents (full_day rates)" "cents (partial_day rates)"
    and u: "day_allowance_unquantized seg rates = Inr (a, steps)"
  shows "cents a"
proof -
  from u obtain s e where se: "seg_start seg = Some s" "seg_end seg = Some e"
    by (auto simp: day_allowance_unquantized_def split: option.splits)
  consider "date_of s = date_of e" | "date_of e < date_of s"
    | "date_of s < date_of e" "MAX_ORDINAL \<le> date_of e"
    | "date_of s < date_of e" "date_of e < MAX_ORDINAL"
    by linarith
  then show ?thesis
  proof cases
    case 1
    from day_allowance_unquantized_single[OF se 1, of rates] u c show ?thesis
      by (auto split: if_splits)
  next
    case 2
    from day_allowance_unquantized_empty[OF se 2, of rates] u show ?thesis by simp
  next
    case 3
    from day_allowance_unquantized_overflow[OF se 3, of rates] u show ?thesis by simp
  next
    case 4
    then have ne: "date_of s \<noteq> date_of e" by simp
    have "cents (sum_list (map (day_price_spec rates (date_of s) (date_of e))
                             [date_of s..date_of e]))"
      by (rule cents_sum_list) (auto simp: day_price_spec_def c)
    with day_allowance_unquantized_multi[OF se ne 4(2), of rates] u show ?thesis by auto
  qed
qed

lemma meal_deductions_unquantized_cents:
  assumes "meal_deductions_unquantized seg full_day_rate = Inr (t, steps)"
  shows "cents t"
proof -
  from assms obtain s e where se: "seg_start seg = Some s" "seg_end seg = Some e"
    by (auto simp: meal_deductions_unquantized_def split: option.splits)
  consider "date_of e < date_of s" | "date_of s \<le> date_of e" "MAX_ORDINAL \<le> date_of e"
    | "date_of e < MAX_ORDINAL"
    by linarith
  then show ?thesis
  proof cases
    case 1
    from meal_deductions_unquantized_empty[OF se 1, of full_day_rate] assms show ?thesis
      by simp
  next
    case 2
    from meal_deductions_unquantized_overflow[OF se 2, of full_day_rate] assms show ?thesis
      by simp
  next
    case 3
    from meal_deductions_unquantized_total[OF se 3, of full_day_rate] assms show ?thesis
      by (auto simp: cents_meal_deduction)
  qed
qed

lemma gross_unquantized_eq:
  assumes r: "get_rates_for_country up (country_code seg) = Inr rates"
    and g: "calculate_day_allowance seg rates = Inr (g, gsteps)"
  shows "gross_unquantized up seg = g"
proof -
  from g obtain a where u: "day_allowance_unquantized seg rates = Inr (a, gsteps)"
    and m: "g = money a"
    by (auto simp: calculate_day_allowance_def split: sum.splits prod.splits)
  have "cents a"
    using get_rates_cents[OF r] u by (auto intro: day_allowance_unquantized_cents)
  then have "money a = a" by (rule money_cents)
  with m u r show ?thesis by (simp add: gross_unquantized_def)
qed

lemma deduction_unquantized_eq:
  assumes r: "get_rates_for_country up (country_code seg) = Inr rates"
    and d: "calculate_meal_deductions seg (full_day rates) = Inr (d, dsteps)"
  shows "deduction_unquantized up seg = d"
proof -
  from d obtain t steps where
    u: "meal_deductions_unquantized seg (full_day rates) = Inr (t, steps)"
    and m: "d = money t"
    by (auto simp: calculate_meal_deductions_def split: sum.splits prod.splits)
  have "cents t" using u by (rule meal_deductions_unquantized_cents)
  then have "money t = t" by (rule money_cents)
  with m u r show ?thesis by (simp add: deduction_unquantized_def)
qed

lemma calculate_segment_shape:
  assumes "calculate_segment up seg st = Inr st'"
  shows "\<exists>g d pt. cents g \<and> cents d \<and> pt_trip_id pt = trip_id seg \<and>
           g = gross_unquantized up seg \<and> d = deduction_unquantized up seg \<and>
           pt_gross_allowance pt = g \<and> pt_meal_deductions pt = d \<and>
           pt_net_allowance pt = g - d \<and>
           cs_by_trip st' = cs_by_trip st @ [pt] \<and>
           cs_gross_total st' = cs_gross_total st + g \<and>
           cs_meal_deduction_total st' = cs_meal_deduction_total st + d"
proof -
  from assms obtain rates g gsteps d dsteps where
    r: "get_rates_for_country up (country_code seg) = Inr rates" and
    g: "calculate_day_allowance seg rates = Inr (g, gsteps)" and
    d: "calculate_meal_deductions seg (full_day rates) = Inr (d, dsteps)"
    by (auto simp: calculate_segment_def Let_def split: sum.splits prod.splits)
  have "cents g" using g by (rule calculate_day_allowance_cents)
  moreover have "cents d" using d by (rule calculate_meal_deductions_cents)
  moreover note gross_unquantized_eq[OF r g] deduction_unquantized_eq[OF r d]
  ultimately show ?thesis
    using assms unfolding calculate_segment_Inr[OF r g d] by auto
qed

lemma calculate_loop_totals:
  assumes "calculate_loop up ys st = Inr st'"
    and "cs_gross_total st = sum_list (map pt_gross_allowance (cs_by_trip st))"
    and "cs_meal_deduction_total st = sum_list (map pt_meal_deductions (cs_by_trip st))"
    and "cs_gross_total st - cs_meal_deduction_total st =
           sum_list (map pt_net_allowance (cs_by_trip st))"
    and "cents (cs_gross_total st)" and "cents (cs_meal_deduction_total st)"
  shows "cs_gross_total st' = sum_list (map pt_gross_allowance (cs_by_trip st')) \<and>
         cs_meal_deduction_total st' = sum_list (map pt_meal_deductions (cs_by_trip st')) \<and>
         cs_gross_total st' - cs_meal_deduction_total st' =
           sum_list (map pt_net_allowance (cs_by_trip st')) \<and>
         cents (cs_gross_total st') \<and> cents (cs_meal_deduction_total st') \<and>
         map pt_trip_id (cs_by_trip st') = map pt_trip_id (cs_by_trip st) @ map trip_id ys"
  using assms
proof (induction ys arbitrary: st)
  case Nil
  then show ?case by simp
next
  case (Cons seg ys)
  from Cons.prems(1) obtain st1 where
    s1: "calculate_segment up seg st = Inr st1" and l: "calculate_loop up ys st1 = Inr st'"
    by (auto split: sum.splits)
  from calculate_segment_shape[OF s1] obtain g d pt where
    sh: "cents g" "cents d" "pt_trip_id pt = trip_id seg"
    "pt_gross_allowance pt = g" "pt_meal_deductions pt = d" "pt_net_allowance pt = g - d"
    "cs_by_trip st1 = cs_by_trip st @ [pt]"
    "cs_gross_total st1 = cs_gross_total st + g"
    "cs_meal_deduction_total st1 = cs_meal_deduction_total st + d"
    by blast
  have i1: "cs_gross_total st1 = sum_list (map pt_gross_allowance (cs_by_trip st1))"
    using sh Cons.prems(2) by simp
  have i2: "cs_meal_deduction_total st1 = sum_list (map pt_meal_deductions (cs_by_trip st1))"
    using sh Cons.prems(3) by simp
  have i3: "cs_gross_total st1 - cs_meal_deduction_total st1 =
           sum_list (map pt_net_allowance (cs_by_trip st1))"
    using sh Cons.prems(4) by simp
  have i4: "cents (cs_gross_total st1)" "cents (cs_meal_deduction_total st1)"
    using sh Cons.prems(5,6) by (simp_all add: cents_add)
  have e: "map pt_trip_id (cs_by_trip st) @ map trip_id (seg # ys) =
             map pt_trip_id (cs_by_trip st1) @ map trip_id ys"
    using sh(3,7) by simp
  from Cons.IH[OF l i1 i2 i3 i4] show ?case
    unfolding e .
qed


lemma calculate_Inr_valid:
  "calculate up segs = Inr r \<Longrightarrow> validate_segments segs = Inr ()"
  by (auto simp: calculate_def split: sum.splits)

lemma calculate_Inr_loop:
  assumes "calculate up segs = Inr r"
  shows "\<exists>st. calculate_loop up (sort_key start_key segs)
                 \<lparr>cs_steps = [RuleVersionStep RULE_VERSION], cs_by_trip = [],
                  cs_gross_total = 0, cs_meal_deduction_total = 0\<rparr> = Inr st \<and>
              gross_allowance (totals r) = money (cs_gross_total st) \<and>
              meal_deductions (totals r) = money (cs_meal_deduction_total st) \<and>
              net_allowance (totals r) =
                money (cs_gross_total st - cs_meal_deduction_total st) \<and>
              by_trip r = cs_by_trip st"
  using assms unfolding calculate_valid[OF calculate_Inr_valid[OF assms]]
  by (auto split: sum.splits)

lemma calculate_totals_exact:
  assumes "calculate up segs = Inr r"
  shows "gross_allowance (totals r) = sum_list (map pt_gross_allowance (by_trip r)) \<and>
         meal_deductions (totals r) = sum_list (map pt_meal_deductions (by_trip r)) \<and>
         net_allowance (totals r) = sum_list (map pt_net_allowance (by_trip r)) \<and>
         map pt_trip_id (by_trip r) = map trip_id (sort_key start_key segs)"
proof -
  let ?st0 = "\<lparr>cs_steps = [RuleVersionStep RULE_VERSION], cs_by_trip = [],
               cs_gross_total = 0, cs_meal_deduction_total = 0\<rparr>"
  from calculate_Inr_loop[OF assms] obtain st where
    l: "calculate_loop up (sort_key start_key segs) ?st0 = Inr st" and
    t0: "gross_allowance (totals r) = money (cs_gross_total st)"
    "meal_deductions (totals r) = money (cs_meal_deduction_total st)"
    "net_allowance (totals r) = money (cs_gross_total st - cs_meal_deduction_total st)"
    "by_trip r = cs_by_trip st"
    by blast
  have p: "cs_gross_total ?st0 = sum_list (map pt_gross_allowance (cs_by_trip ?st0))"
    "cs_meal_deduction_total ?st0 = sum_list (map pt_meal_deductions (cs_by_trip ?st0))"
    "cs_gross_total ?st0 - cs_meal_deduction_total ?st0 =
       sum_list (map pt_net_allowance (cs_by_trip ?st0))"
    "cents (cs_gross_total ?st0)" "cents (cs_meal_deduction_total ?st0)"
    by simp_all
  note inv0 = calculate_loop_totals[OF l p]
  have inv: "cs_gross_total st = sum_list (map pt_gross_allowance (cs_by_trip st))"
    "cs_meal_deduction_total st = sum_list (map pt_meal_deductions (cs_by_trip st))"
    "cs_gross_total st - cs_meal_deduction_total st =
           sum_list (map pt_net_allowance (cs_by_trip st))"
    "cents (cs_gross_total st)" "cents (cs_meal_deduction_total st)"
    using inv0 by blast+
  have ids: "map pt_trip_id (cs_by_trip st) =
               map pt_trip_id (cs_by_trip ?st0) @ map trip_id (sort_key start_key segs)"
    using inv0 by blast
  have m: "money (cs_gross_total st) = cs_gross_total st"
    "money (cs_meal_deduction_total st) = cs_meal_deduction_total st"
    "money (cs_gross_total st - cs_meal_deduction_total st) =
       cs_gross_total st - cs_meal_deduction_total st"
    using inv(4,5) by (simp_all add: money_cents cents_diff)
  have order: "map pt_trip_id (cs_by_trip st) = map trip_id (sort_key start_key segs)"
    using ids by simp
  show ?thesis
    unfolding t0 m using inv(1,2,3) order by blast
qed





text \<open>
  C7. On every batch on which \<open>calculate\<close> succeeds, the reported net total differs from the
  sum of the per-trip net allowances by at most 0.01 times the number of segments.
\<close>

theorem net_total_drift_bounded:
  assumes "calculate up segs = Inr r"
  shows "\<bar>net_allowance (totals r) - sum_list (map pt_net_allowance (by_trip r))\<bar>
           \<le> 1 / 100 * of_nat (length segs)"
  using calculate_totals_exact[OF assms] by simp

theorem net_total_drift_bounded_witness:
  "\<exists>r. calculate ascii_upper two_trip_batch = Inr r \<and>
       \<bar>net_allowance (totals r) - sum_list (map pt_net_allowance (by_trip r))\<bar>
           \<le> 1 / 100 * of_nat (length two_trip_batch)"
proof -
  have "\<not> precondition_violated ascii_upper two_trip_batch"
    "\<not> list_ex steps_past_last_date two_trip_batch"
    by code_simp+
  then obtain r where r: "calculate ascii_upper two_trip_batch = Inr r"
    using calculate_returns by blast
  from net_total_drift_bounded[OF r] r show ?thesis by (intro exI[of _ r]) simp
qed

section \<open>Independence of the input order\<close>







section \<open>Deductions on a day without allowance\<close>








end
